theory Spec2Isabelle
  imports Main "HOL-Library.AList" "HOL-Library.Word"
begin

section \<open>Shared vocabulary of the snapshotters\<close>

type_synonym address = string
type_synonym token_id = int

text \<open>\<open>ethers.ZeroAddress\<close>.\<close>

definition ZeroAddress :: address where
  "ZeroAddress = ''0x0000000000000000000000000000000000000000''"

text \<open>
  The test \<open>result.owner && result.owner !== ethers.ZeroAddress\<close>: a lookup result
  carries \<open>owner: null\<close> (here \<open>None\<close>) when \<open>ownerOf\<close> threw; the empty string is
  falsy in JavaScript as well. The function returns the owner that passes the test.
\<close>

definition found_owner :: "address option \<Rightarrow> address option" where
  "found_owner ow =
     (case ow of
        None \<Rightarrow> None
      | Some a \<Rightarrow> if a \<noteq> [] \<and> a \<noteq> ZeroAddress then Some a else None)"

text \<open>
  A JavaScript \<open>Set\<close> of token ids keeps insertion order (\<open>Array.from\<close> reads it in that
  order), so it is a list without duplicates: \<open>add\<close> appends a new element only,
  \<open>delete\<close> removes it, \<open>has\<close> is membership and \<open>size\<close> is the length.
\<close>

definition set_add :: "token_id \<Rightarrow> token_id list \<Rightarrow> token_id list" where
  "set_add x xs = (if x \<in> set xs then xs else xs @ [x])"

definition set_delete :: "token_id \<Rightarrow> token_id list \<Rightarrow> token_id list" where
  "set_delete x xs = removeAll x xs"

datatype error = RpcSetupError

text \<open>
  The network, as seen by \<open>getTokenOwnerBatch\<close>. Invocations of \<open>getTokenOwnerBatch\<close> are
  numbered in the order they are made. \<open>ownerOf env n k tokenId\<close> is what
  \<open>contract.ownerOf(tokenId, {blockTag})\<close> yields for the \<open>k\<close>-th member of the \<open>n\<close>-th
  invocation: \<open>Some owner\<close>, or \<open>None\<close> when the call throws (caught per member and turned
  into \<open>owner: null\<close>). \<open>contract_throws env n\<close> says that the \<open>n\<close>-th invocation throws as
  a whole (provider or contract construction), which is what the \<open>try/catch\<close> around the
  recheck call handles.
\<close>

record rpc_env =
  contract_throws :: "nat \<Rightarrow> bool"
  ownerOf :: "nat \<Rightarrow> nat \<Rightarrow> token_id \<Rightarrow> address option"

type_synonym lookup_results = "(token_id \<times> address option) list"

definition getTokenOwnerBatch :: "rpc_env \<Rightarrow> nat \<Rightarrow> token_id list \<Rightarrow> error + lookup_results" where
  "getTokenOwnerBatch env n tokenIds =
     (if contract_throws env n then Inl RpcSetupError
      else Inr (map (\<lambda>(k, tokenId). (tokenId, ownerOf env n k tokenId)) (enumerate 0 tokenIds)))"

section \<open>Batches\<close>

text \<open>
  The inner loop \<open>for (let j = 0; j < BATCH_SIZE && i + j <= TOTAL_SUPPLY; j++) batch.push(i + j)\<close>.
\<close>

function batch_from :: "int \<Rightarrow> int \<Rightarrow> int \<Rightarrow> int \<Rightarrow> token_id list" where
  "batch_from T B i j = (if j < B \<and> i + j \<le> T then (i + j) # batch_from T B i (j + 1) else [])"
  by pat_completeness auto
termination
  by (relation "measure (\<lambda>(T, B, i, j). nat (B - j))") auto

text \<open>
  The outer loop \<open>for (let i = 1; i <= TOTAL_SUPPLY; i += BATCH_SIZE)\<close>. It does not end
  when \<open>BATCH_SIZE \<le> 0\<close> and the supply is positive; not returning is the value \<open>None\<close>.
\<close>

partial_function (option) initial_batches :: "int \<Rightarrow> int \<Rightarrow> int \<Rightarrow> token_id list list option" where
  "initial_batches T B i =
     (if i \<le> T
      then Option.bind (initial_batches T B (i + B)) (\<lambda>rest. Some (batch_from T B i 0 # rest))
      else Some [])"

text \<open>\<open>Math.max(5, Math.floor(BATCH_SIZE / pass))\<close>.\<close>

definition recheck_batch_size :: "int \<Rightarrow> int \<Rightarrow> int" where
  "recheck_batch_size B pass = max 5 (B div pass)"

text \<open>
  \<open>for (let i = 0; i < tokensArray.length; i += batchSize)
      recheckBatches.push(tokensArray.slice(i, i + batchSize))\<close>
  with \<open>batchSize\<close> as above.
\<close>

function recheck_batches :: "int \<Rightarrow> int \<Rightarrow> nat \<Rightarrow> token_id list \<Rightarrow> token_id list list" where
  "recheck_batches B pass i tokensArray =
     (if i < length tokensArray
      then take (nat (recheck_batch_size B pass)) (drop i tokensArray)
             # recheck_batches B pass (i + nat (recheck_batch_size B pass)) tokensArray
      else [])"
  by pat_completeness auto
termination
  by (relation "measure (\<lambda>(B, pass, i, xs). length xs - i)") (auto simp: recheck_batch_size_def)

section \<open>The single-chain snapshotter (Infinity collection)\<close>

text \<open>
  An entry of \<open>finalSnapshot\<close>: \<open>{ owner, block }\<close>.
\<close>

record token_record =
  owner :: address
  block :: int

text \<open>
  The local variables of \<open>snapshotNFTs\<close> that the loops update. \<open>calls\<close> is not a
  variable of the source: it counts the invocations of \<open>getTokenOwnerBatch\<close> made so
  far, which is the position in the network's answers.
\<close>

record snapshot_state =
  finalSnapshot :: "token_id \<rightharpoonup> token_record"
  tokensToRecheck :: "token_id list"
  totalFound :: nat
  calls :: nat

definition init_state :: snapshot_state where
  "init_state = \<lparr>finalSnapshot = Map.empty, tokensToRecheck = [], totalFound = 0, calls = 0\<rparr>"

text \<open>
  The body of \<open>for (const result of results)\<close> in the initial sweep: a result with a
  usable owner is written to \<open>finalSnapshot\<close> and counted, any other one is added to
  \<open>tokensToRecheck\<close>.
\<close>

fun record_results :: "int \<Rightarrow> snapshot_state \<Rightarrow> lookup_results \<Rightarrow> snapshot_state" where
  "record_results snapshotBlock st [] = st"
| "record_results snapshotBlock st ((tokenId, ow) # results) =
     record_results snapshotBlock
       (case found_owner ow of
          Some a \<Rightarrow>
            st\<lparr>finalSnapshot := (finalSnapshot st)(tokenId \<mapsto> \<lparr>owner = a, block = snapshotBlock\<rparr>),
               totalFound := totalFound st + 1\<rparr>
        | None \<Rightarrow> st\<lparr>tokensToRecheck := set_add tokenId (tokensToRecheck st)\<rparr>)
       results"

text \<open>
  \<open>for (const batch of batches)\<close> of the initial sweep. The call of
  \<open>getTokenOwnerBatch\<close> is not guarded here: if it throws, \<open>snapshotNFTs\<close> throws.
\<close>

fun initial_sweep :: "rpc_env \<Rightarrow> int \<Rightarrow> snapshot_state \<Rightarrow> token_id list list \<Rightarrow> error + snapshot_state" where
  "initial_sweep env snapshotBlock st [] = Inr st"
| "initial_sweep env snapshotBlock st (batch # batches) =
     (case getTokenOwnerBatch env (calls st) batch of
        Inl e \<Rightarrow> Inl e
      | Inr results \<Rightarrow>
          initial_sweep env snapshotBlock
            (record_results snapshotBlock (st\<lparr>calls := calls st + 1\<rparr>) results) batches)"

text \<open>
  \<open>while (attempts > 0) { try { results = await getTokenOwnerBatch(...); break; }
     catch (err) { attempts--; ... } }\<close>, started with \<open>results = null\<close>. The second
  component is the number of invocations made once the loop is left.
\<close>

fun fetch_with_retry :: "rpc_env \<Rightarrow> nat \<Rightarrow> nat \<Rightarrow> token_id list \<Rightarrow> lookup_results option \<times> nat" where
  "fetch_with_retry env n 0 batch = (None, n)"
| "fetch_with_retry env n (Suc attempts) batch =
     (case getTokenOwnerBatch env n batch of
        Inr results \<Rightarrow> (Some results, Suc n)
      | Inl e \<Rightarrow> fetch_with_retry env (Suc n) attempts batch)"

text \<open>
  The body of \<open>for (const result of results)\<close> in a recheck pass: a result whose token
  is no longer in \<open>tokensToRecheck\<close> is skipped; a usable owner is written, counted and
  the token deleted from \<open>tokensToRecheck\<close>; otherwise nothing changes.
\<close>

fun recheck_results :: "int \<Rightarrow> snapshot_state \<Rightarrow> lookup_results \<Rightarrow> snapshot_state" where
  "recheck_results snapshotBlock st [] = st"
| "recheck_results snapshotBlock st ((tokenId, ow) # results) =
     recheck_results snapshotBlock
       (if tokenId \<notin> set (tokensToRecheck st) then st
        else case found_owner ow of
          Some a \<Rightarrow>
            st\<lparr>finalSnapshot := (finalSnapshot st)(tokenId \<mapsto> \<lparr>owner = a, block = snapshotBlock\<rparr>),
               totalFound := totalFound st + 1,
               tokensToRecheck := set_delete tokenId (tokensToRecheck st)\<rparr>
        | None \<Rightarrow> st)
       results"

text \<open>
  One group of a recheck pass: \<open>attempts = pass\<close>, then \<open>if (!results) continue\<close>, then
  the loop over the results.
\<close>

definition recheck_group :: "rpc_env \<Rightarrow> int \<Rightarrow> nat \<Rightarrow> snapshot_state \<Rightarrow> token_id list \<Rightarrow> snapshot_state" where
  "recheck_group env snapshotBlock pass st batch =
     (case fetch_with_retry env (calls st) pass batch of
        (None, n) \<Rightarrow> st\<lparr>calls := n\<rparr>
      | (Some results, n) \<Rightarrow> recheck_results snapshotBlock (st\<lparr>calls := n\<rparr>) results)"

text \<open>
  One recheck pass: \<open>tokensArray = Array.from(tokensToRecheck)\<close> is cut into groups once,
  at the start of the pass, and the groups are processed in order.
\<close>

definition recheck_pass :: "rpc_env \<Rightarrow> int \<Rightarrow> int \<Rightarrow> nat \<Rightarrow> snapshot_state \<Rightarrow> snapshot_state" where
  "recheck_pass env snapshotBlock B pass st =
     foldl (recheck_group env snapshotBlock pass) st
       (recheck_batches B (int pass) 0 (tokensToRecheck st))"

text \<open>
  \<open>for (let pass = ...; pass <= 3; pass++) { if (tokensToRecheck.size === 0) break; ... }\<close>.
  The bound 3 of the source is the argument \<open>lastPass\<close>, so that the state after fewer
  passes can be named.
\<close>

function recheck_loop :: "rpc_env \<Rightarrow> int \<Rightarrow> int \<Rightarrow> nat \<Rightarrow> nat \<Rightarrow> snapshot_state \<Rightarrow> snapshot_state" where
  "recheck_loop env snapshotBlock B lastPass pass st =
     (if pass \<le> lastPass
      then (if length (tokensToRecheck st) = 0 then st
            else recheck_loop env snapshotBlock B lastPass (Suc pass)
                   (recheck_pass env snapshotBlock B pass st))
      else st)"
  by pat_completeness auto
termination
  by (relation "measure (\<lambda>(env, snapshotBlock, B, lastPass, pass, st). Suc lastPass - pass)") auto

text \<open>\<open>if (tokensToRecheck.size > 0) { for (let pass = 1; pass <= 3; pass++) ... }\<close>.\<close>

definition recheck_upto :: "rpc_env \<Rightarrow> int \<Rightarrow> int \<Rightarrow> nat \<Rightarrow> snapshot_state \<Rightarrow> snapshot_state" where
  "recheck_upto env snapshotBlock B lastPass st =
     (if length (tokensToRecheck st) > 0 then recheck_loop env snapshotBlock B lastPass 1 st else st)"

text \<open>
  \<open>Object.entries\<close> of an object whose keys are token ids: integer keys are listed in
  ascending order.
\<close>

definition object_entries :: "(token_id \<rightharpoonup> 'r) \<Rightarrow> (token_id \<times> 'r) list" where
  "object_entries obj = map (\<lambda>k. (k, the (obj k))) (sorted_list_of_set (dom obj))"

record csv_row =
  TokenId :: token_id
  Owner :: address
  Chain :: string
  BlockNumber :: int

text \<open>
  The rows handed to the CSV writer: one per entry of \<open>finalSnapshot\<close>, sorted by token id.
\<close>

definition csv_rows :: "(token_id \<rightharpoonup> token_record) \<Rightarrow> csv_row list" where
  "csv_rows fs =
     sort_key TokenId
       (map (\<lambda>(tokenId, tokenData).
               \<lparr>TokenId = tokenId, Owner = owner tokenData, Chain = ''ethereum'',
                BlockNumber = block tokenData\<rparr>)
            (object_entries fs))"

text \<open>
  What a run leaves behind: the rows written, the returned \<open>foundTokens\<close> and
  \<open>missingTokens\<close>, and the two counts of the summary (\<open>Tokens Found: totalFound\<close>,
  \<open>Tokens Not Found: TOTAL_SUPPLY - totalFound\<close>).
\<close>

record snapshot_result =
  csvData :: "csv_row list"
  foundTokens :: "token_id \<rightharpoonup> token_record"
  missingTokens :: "token_id list"
  found :: nat
  missing :: int

definition generate_output :: "int \<Rightarrow> snapshot_state \<Rightarrow> snapshot_result" where
  "generate_output T st =
     \<lparr>csvData = csv_rows (finalSnapshot st),
      foundTokens = finalSnapshot st,
      missingTokens = tokensToRecheck st,
      found = totalFound st,
      missing = T - int (totalFound st)\<rparr>"

text \<open>
  \<open>snapshotNFTs(snapshotBlock)\<close> with \<open>TOTAL_SUPPLY = T\<close> and \<open>BATCH_SIZE = B\<close>. The
  outer \<open>option\<close> is \<open>None\<close> when the batch-building loop never ends; \<open>Inl\<close> is a
  thrown error.
\<close>

definition snapshotNFTs :: "rpc_env \<Rightarrow> int \<Rightarrow> int \<Rightarrow> int \<Rightarrow> (error + snapshot_result) option" where
  "snapshotNFTs env T B snapshotBlock =
     (case initial_batches T B 1 of
        None \<Rightarrow> None
      | Some batches \<Rightarrow>
          Some (case initial_sweep env snapshotBlock init_state batches of
                  Inl e \<Rightarrow> Inl e
                | Inr st \<Rightarrow> Inr (generate_output T (recheck_upto env snapshotBlock B 3 st))))"

text \<open>
  What it means for \<open>gs\<close> to cut \<open>xs\<close> into consecutive groups of size \<open>n\<close>: the groups
  concatenate to \<open>xs\<close>, none is empty or longer than \<open>n\<close>, and every group but the last
  has exactly \<open>n\<close> members.
\<close>

definition partitions_by :: "nat \<Rightarrow> 'a list \<Rightarrow> 'a list list \<Rightarrow> bool" where
  "partitions_by n xs gs \<longleftrightarrow>
     concat gs = xs \<and> (\<forall>g \<in> set gs. g \<noteq> [] \<and> length g \<le> n) \<and> (\<forall>g \<in> set (butlast gs). length g = n)"


section \<open>The multi-chain snapshotter (Panda collection)\<close>

text \<open>
  An entry of the object \<open>chains\<close>. \<open>rpc\<close> is \<open>process.env.*_RPC_URL\<close> (\<open>None\<close> when the
  variable is not set), \<open>snapshotBlock\<close> starts as \<open>null\<close> and is set by \<open>getLatestBlocks\<close>
  or \<open>populateSnapshotBlocks\<close>. The object itself is the list of its entries in
  insertion order, which is the order of \<open>Object.entries(chains)\<close>.
\<close>

record chain_config =
  rpc :: "string option"
  chainId :: int
  snapshotBlock :: "int option"

type_synonym chains = "(string \<times> chain_config) list"

text \<open>
  \<open>!chainConfig.snapshotBlock\<close> is true for \<open>null\<close> and for the number 0;
  \<open>!chainConfig.rpc\<close> is true for \<open>undefined\<close> and for the empty string.
\<close>

definition has_snapshot_block :: "chain_config \<Rightarrow> bool" where
  "has_snapshot_block chainConfig =
     (case snapshotBlock chainConfig of None \<Rightarrow> False | Some b \<Rightarrow> b \<noteq> 0)"

definition has_rpc :: "chain_config \<Rightarrow> bool" where
  "has_rpc chainConfig = (case rpc chainConfig of None \<Rightarrow> False | Some url \<Rightarrow> url \<noteq> [])"

text \<open>
  Which chains are queried. The stand-alone script tests
  \<open>if (!chainConfig.snapshotBlock) return null\<close> (it refuses to start without every RPC
  URL); the class \<open>PandaSnapshotter\<close> of the unified tool tests
  \<open>if (!chainConfig.snapshotBlock || !chainConfig.rpc) return null\<close>.
\<close>

definition eligible_standalone :: "chain_config \<Rightarrow> bool" where
  "eligible_standalone chainConfig = has_snapshot_block chainConfig"

definition eligible_unified :: "chain_config \<Rightarrow> bool" where
  "eligible_unified chainConfig = (has_snapshot_block chainConfig \<and> has_rpc chainConfig)"

text \<open>
  \<open>chains[chainName].snapshotBlock\<close>. The name always comes from an entry of \<open>chains\<close>,
  so the lookup of the name itself cannot fail in the source.
\<close>

definition chain_block :: "chains \<Rightarrow> string \<Rightarrow> int option" where
  "chain_block chs chainName =
     (case map_of chs chainName of None \<Rightarrow> None | Some chainConfig \<Rightarrow> snapshotBlock chainConfig)"

text \<open>An entry of \<open>finalSnapshot\<close>: \<open>{ owner, chain, block }\<close>.\<close>

record panda_record =
  owner_p :: address
  chain_p :: string
  block_p :: "int option"

text \<open>
  The local variables of the multi-chain \<open>snapshotNFTs\<close>; \<open>calls_p\<close> numbers the
  invocations of \<open>getTokenOwnerBatch\<close> as before. \<open>chainStats\<close> holds a count for every
  chain name, all 0 at the start.
\<close>

record panda_state =
  finalSnapshot_p :: "token_id \<rightharpoonup> panda_record"
  tokensToRecheck_p :: "token_id list"
  chainStats :: "string \<Rightarrow> nat"
  calls_p :: nat

definition init_state_p :: panda_state where
  "init_state_p =
     \<lparr>finalSnapshot_p = Map.empty, tokensToRecheck_p = [], chainStats = (\<lambda>chainName. 0), calls_p = 0\<rparr>"

text \<open>
  The value of one of the \<open>chainPromises\<close>: \<open>null\<close> for a chain that is skipped, else
  \<open>{ chainName, results }\<close>, where \<open>results\<close> is \<open>null\<close> when every attempt of a recheck
  threw.
\<close>

type_synonym chain_result = "(string \<times> lookup_results option) option"

text \<open>
  \<open>chainPromises\<close> of the initial sweep, joined by \<open>Promise.all\<close>: every eligible chain
  is asked for the whole batch; a throwing \<open>getTokenOwnerBatch\<close> rejects the join. Each
  chain has its own network answers \<open>envs chainName\<close>; the invocations are numbered in
  configuration order.
\<close>

fun chain_lookups ::
  "(chain_config \<Rightarrow> bool) \<Rightarrow> (string \<Rightarrow> rpc_env) \<Rightarrow> nat \<Rightarrow> chains \<Rightarrow> token_id list
     \<Rightarrow> error + (chain_result list \<times> nat)" where
  "chain_lookups elig envs n [] batch = Inr ([], n)"
| "chain_lookups elig envs n ((chainName, chainConfig) # rest) batch =
     (if \<not> elig chainConfig then
        (case chain_lookups elig envs n rest batch of
           Inl e \<Rightarrow> Inl e
         | Inr (crs, n') \<Rightarrow> Inr (None # crs, n'))
      else
        (case getTokenOwnerBatch (envs chainName) n batch of
           Inl e \<Rightarrow> Inl e
         | Inr results \<Rightarrow>
             (case chain_lookups elig envs (Suc n) rest batch of
                Inl e \<Rightarrow> Inl e
              | Inr (crs, n') \<Rightarrow> Inr (Some (chainName, Some results) # crs, n'))))"

text \<open>
  \<open>chainPromises\<close> of a recheck pass: every eligible chain runs the retry loop with
  \<open>attempts = pass\<close>; nothing is thrown.
\<close>

fun chain_rechecks ::
  "(chain_config \<Rightarrow> bool) \<Rightarrow> (string \<Rightarrow> rpc_env) \<Rightarrow> nat \<Rightarrow> nat \<Rightarrow> chains \<Rightarrow> token_id list
     \<Rightarrow> chain_result list \<times> nat" where
  "chain_rechecks elig envs pass n [] batch = ([], n)"
| "chain_rechecks elig envs pass n ((chainName, chainConfig) # rest) batch =
     (if \<not> elig chainConfig then
        (case chain_rechecks elig envs pass n rest batch of (crs, n') \<Rightarrow> (None # crs, n'))
      else
        (case fetch_with_retry (envs chainName) n pass batch of
           (results, n1) \<Rightarrow>
             (case chain_rechecks elig envs pass n1 rest batch of
                (crs, n') \<Rightarrow> (Some (chainName, results) # crs, n'))))"

text \<open>
  The loop \<open>for (const chainResult of chainResults)\<close> for one token: it skips \<open>null\<close>
  entries, looks the token up with \<open>results?.find(r => r.tokenId === tokenId)\<close>, and at
  the first usable owner builds the record and breaks. The result is the record that is
  written, or \<open>None\<close> when the loop ends without one.
\<close>

fun find_owner :: "chains \<Rightarrow> chain_result list \<Rightarrow> token_id \<Rightarrow> panda_record option" where
  "find_owner chs [] tokenId = None"
| "find_owner chs (None # chainResults) tokenId = find_owner chs chainResults tokenId"
| "find_owner chs (Some (chainName, None) # chainResults) tokenId =
     find_owner chs chainResults tokenId"
| "find_owner chs (Some (chainName, Some results) # chainResults) tokenId =
     (case find (\<lambda>r. fst r = tokenId) results of
        None \<Rightarrow> find_owner chs chainResults tokenId
      | Some result \<Rightarrow>
          (case found_owner (snd result) of
             None \<Rightarrow> find_owner chs chainResults tokenId
           | Some a \<Rightarrow>
               Some \<lparr>owner_p = a, chain_p = chainName, block_p = chain_block chs chainName\<rparr>))"

text \<open>\<open>for (const tokenId of batch)\<close> of the initial sweep.\<close>

fun sweep_tokens :: "chains \<Rightarrow> chain_result list \<Rightarrow> panda_state \<Rightarrow> token_id list \<Rightarrow> panda_state" where
  "sweep_tokens chs chainResults st [] = st"
| "sweep_tokens chs chainResults st (tokenId # batch) =
     sweep_tokens chs chainResults
       (case find_owner chs chainResults tokenId of
          Some r \<Rightarrow>
            st\<lparr>finalSnapshot_p := (finalSnapshot_p st)(tokenId \<mapsto> r),
               chainStats := (chainStats st)(chain_p r := chainStats st (chain_p r) + 1)\<rparr>
        | None \<Rightarrow> st\<lparr>tokensToRecheck_p := set_add tokenId (tokensToRecheck_p st)\<rparr>)
       batch"

text \<open>\<open>for (const batch of batches)\<close> of the initial sweep.\<close>

fun panda_initial_sweep ::
  "(chain_config \<Rightarrow> bool) \<Rightarrow> (string \<Rightarrow> rpc_env) \<Rightarrow> chains \<Rightarrow> panda_state \<Rightarrow> token_id list list
     \<Rightarrow> error + panda_state" where
  "panda_initial_sweep elig envs chs st [] = Inr st"
| "panda_initial_sweep elig envs chs st (batch # batches) =
     (case chain_lookups elig envs (calls_p st) chs batch of
        Inl e \<Rightarrow> Inl e
      | Inr (chainResults, n) \<Rightarrow>
          panda_initial_sweep elig envs chs
            (sweep_tokens chs chainResults (st\<lparr>calls_p := n\<rparr>) batch) batches)"

text \<open>
  \<open>for (const tokenId of batch)\<close> of a recheck pass, with its guard
  \<open>if (!tokensToRecheck.has(tokenId)) continue\<close>.
\<close>

fun recheck_tokens :: "chains \<Rightarrow> chain_result list \<Rightarrow> panda_state \<Rightarrow> token_id list \<Rightarrow> panda_state" where
  "recheck_tokens chs chainResults st [] = st"
| "recheck_tokens chs chainResults st (tokenId # batch) =
     recheck_tokens chs chainResults
       (if tokenId \<notin> set (tokensToRecheck_p st) then st
        else case find_owner chs chainResults tokenId of
          Some r \<Rightarrow>
            st\<lparr>finalSnapshot_p := (finalSnapshot_p st)(tokenId \<mapsto> r),
               chainStats := (chainStats st)(chain_p r := chainStats st (chain_p r) + 1),
               tokensToRecheck_p := set_delete tokenId (tokensToRecheck_p st)\<rparr>
        | None \<Rightarrow> st)
       batch"

definition panda_recheck_group ::
  "(chain_config \<Rightarrow> bool) \<Rightarrow> (string \<Rightarrow> rpc_env) \<Rightarrow> chains \<Rightarrow> nat \<Rightarrow> panda_state \<Rightarrow> token_id list
     \<Rightarrow> panda_state" where
  "panda_recheck_group elig envs chs pass st batch =
     (case chain_rechecks elig envs pass (calls_p st) chs batch of
        (chainResults, n) \<Rightarrow> recheck_tokens chs chainResults (st\<lparr>calls_p := n\<rparr>) batch)"

definition panda_recheck_pass ::
  "(chain_config \<Rightarrow> bool) \<Rightarrow> (string \<Rightarrow> rpc_env) \<Rightarrow> chains \<Rightarrow> int \<Rightarrow> nat \<Rightarrow> panda_state
     \<Rightarrow> panda_state" where
  "panda_recheck_pass elig envs chs B pass st =
     foldl (panda_recheck_group elig envs chs pass) st
       (recheck_batches B (int pass) 0 (tokensToRecheck_p st))"

function panda_recheck_loop ::
  "(chain_config \<Rightarrow> bool) \<Rightarrow> (string \<Rightarrow> rpc_env) \<Rightarrow> chains \<Rightarrow> int \<Rightarrow> nat \<Rightarrow> nat \<Rightarrow> panda_state
     \<Rightarrow> panda_state" where
  "panda_recheck_loop elig envs chs B lastPass pass st =
     (if pass \<le> lastPass
      then (if length (tokensToRecheck_p st) = 0 then st
            else panda_recheck_loop elig envs chs B lastPass (Suc pass)
                   (panda_recheck_pass elig envs chs B pass st))
      else st)"
  by pat_completeness auto
termination
  by (relation "measure (\<lambda>(elig, envs, chs, B, lastPass, pass, st). Suc lastPass - pass)") auto

definition panda_recheck_upto ::
  "(chain_config \<Rightarrow> bool) \<Rightarrow> (string \<Rightarrow> rpc_env) \<Rightarrow> chains \<Rightarrow> int \<Rightarrow> nat \<Rightarrow> panda_state
     \<Rightarrow> panda_state" where
  "panda_recheck_upto elig envs chs B lastPass st =
     (if length (tokensToRecheck_p st) > 0 then panda_recheck_loop elig envs chs B lastPass 1 st
      else st)"

text \<open>
  \<open>generateWalletSummary\<close>: \<open>walletCounts[owner] = (walletCounts[owner] || 0) + 1\<close> for
  every value of its argument \<open>foundTokens\<close> (here \<open>tokens\<close>). The object
  \<open>walletCounts\<close> is the list of its entries in insertion order. Owners are addresses
  (\<open>0x\<close> and forty hexadecimal digits), so a key is never the name of a member that
  every JavaScript object inherits, and a missing key reads as \<open>undefined\<close>.
\<close>

definition count_wallet :: "(address \<times> nat) list \<Rightarrow> address \<Rightarrow> (address \<times> nat) list" where
  "count_wallet walletCounts ow =
     AList.update ow ((case map_of walletCounts ow of None \<Rightarrow> 0 | Some c \<Rightarrow> c) + 1) walletCounts"

definition generateWalletSummary :: "(token_id \<rightharpoonup> panda_record) \<Rightarrow> (address \<times> nat) list" where
  "generateWalletSummary tokens =
     foldl count_wallet [] (map (\<lambda>(tokenId, r). owner_p r) (object_entries tokens))"

record panda_csv_row =
  TokenId_p :: token_id
  Owner_p :: address
  Chain_p :: string
  BlockNumber_p :: "int option"

definition panda_csv_rows :: "(token_id \<rightharpoonup> panda_record) \<Rightarrow> panda_csv_row list" where
  "panda_csv_rows fs =
     sort_key TokenId_p
       (map (\<lambda>(tokenId, tokenData).
               \<lparr>TokenId_p = tokenId, Owner_p = owner_p tokenData, Chain_p = chain_p tokenData,
                BlockNumber_p = block_p tokenData\<rparr>)
            (object_entries fs))"

text \<open>
  What a run returns: the rows written and the \<open>stats\<close> (\<open>found\<close> is
  \<open>Object.keys(finalSnapshot).length\<close>, \<open>missing\<close> is \<open>TOTAL_SUPPLY - totalFound\<close>,
  \<open>uniqueWallets\<close> is the number of entries of the wallet summary); \<open>snapshot_p\<close> is the
  final \<open>finalSnapshot\<close> the rows are made from, \<open>unresolved_p\<close> the final
  \<open>tokensToRecheck\<close>.
\<close>

record panda_result =
  processedData :: "panda_csv_row list"
  snapshot_p :: "token_id \<rightharpoonup> panda_record"
  unresolved_p :: "token_id list"
  found_p :: nat
  missing_p :: int
  uniqueWallets :: nat

definition panda_generate_output :: "int \<Rightarrow> panda_state \<Rightarrow> panda_result" where
  "panda_generate_output T st =
     \<lparr>processedData = panda_csv_rows (finalSnapshot_p st),
      snapshot_p = finalSnapshot_p st,
      unresolved_p = tokensToRecheck_p st,
      found_p = card (dom (finalSnapshot_p st)),
      missing_p = T - int (card (dom (finalSnapshot_p st))),
      uniqueWallets = length (generateWalletSummary (finalSnapshot_p st))\<rparr>"

definition panda_snapshotNFTs ::
  "(chain_config \<Rightarrow> bool) \<Rightarrow> (string \<Rightarrow> rpc_env) \<Rightarrow> chains \<Rightarrow> int \<Rightarrow> int
     \<Rightarrow> (error + panda_result) option" where
  "panda_snapshotNFTs elig envs chs T B =
     (case initial_batches T B 1 of
        None \<Rightarrow> None
      | Some batches \<Rightarrow>
          Some (case panda_initial_sweep elig envs chs init_state_p batches of
                  Inl e \<Rightarrow> Inl e
                | Inr st \<Rightarrow> Inr (panda_generate_output T (panda_recheck_upto elig envs chs B 3 st))))"

section \<open>The Solana fetcher\<close>

text \<open>
  A JavaScript string is a sequence of UTF-16 code units. The mint address of a token
  comes from a cell of the input CSV and may hold any of them, and \<open>trim\<close> looks at each,
  so mint addresses are kept as lists of code units. Of the addresses and owners in the
  answers of Helius only emptiness is ever tested.
\<close>

type_synonym code_unit = "16 word"
type_synonym js_string = "code_unit list"

text \<open>
  What the fetcher does to the world, in order: taking and giving back a slot of the
  rate gate, sleeping, and the two kinds of HTTP round trip.
\<close>

datatype event =
    Acquire
  | Release
  | Sleep int
  | PostLargestAccounts js_string
  | PostAccountInfo string

text \<open>
  The fields \<open>maxConcurrent\<close> and \<open>activeRequests\<close> of \<open>SolanaPandaOwnershipFetcher\<close>. The
  other two fields are not in the source: \<open>trace\<close> records the events so far and \<open>posts\<close>
  counts the HTTP requests made, which is the position in the network's answers.
\<close>

record fetcher =
  maxConcurrent :: int
  activeRequests :: int
  posts :: nat
  trace :: "event list"

text \<open>
  The outcome of \<open>axios.post\<close>: it throws (with the status of \<open>error.response\<close>, if there
  is a response), or it returns a response with a status and, when \<open>response.data\<close> and
  \<open>response.data.result\<close> are both truthy, the value of \<open>response.data.result.value\<close>.
\<close>

datatype 'a http =
    Throws "int option"
  | Responds int "'a option"

text \<open>
  An element of the account list of \<open>getTokenLargestAccounts\<close>; \<open>amount\<close> is
  \<open>parseInt(acc.amount)\<close>, \<open>None\<close> for \<open>NaN\<close>. A value that is not a list makes
  \<open>accounts.filter\<close> throw.
\<close>

record token_account =
  account_address :: string
  amount :: "int option"

datatype largest_accounts =
    NotAList
  | Accounts "token_account list"

text \<open>
  The value of \<open>getAccountInfo\<close>: without \<open>data.parsed\<close> (or \<open>null\<close>); with \<open>data.parsed\<close>
  but no \<open>info\<close>, where reading \<open>info.owner\<close> throws; or with \<open>info\<close>, whose \<open>owner\<close> may be
  missing.
\<close>

datatype account_data =
    NoParsedData
  | ParsedNoInfo
  | ParsedOwner "string option"

record helius_env =
  largestAccounts :: "nat \<Rightarrow> js_string \<Rightarrow> largest_accounts http"
  accountInfo :: "nat \<Rightarrow> string \<Rightarrow> account_data http"

definition maxRetries :: nat where
  "maxRetries = 5"

definition retryDelay :: int where
  "retryDelay = 2000"

definition sleep :: "int \<Rightarrow> fetcher \<Rightarrow> fetcher" where
  "sleep ms st = st\<lparr>trace := trace st @ [Sleep ms]\<rparr>"

text \<open>
  \<open>while (this.activeRequests >= this.maxConcurrent) await sleep(100); this.activeRequests++\<close>.
  Nothing else runs in this model, so a full gate stays full and the loop never ends:
  that is the value \<open>None\<close>. \<open>maxConcurrent\<close> is \<open>parseInt(process.env.MAX_CONCURRENT || "30")\<close>,
  so the setting \<open>MAX_CONCURRENT=0\<close> gives a gate that is full from the start.
\<close>

partial_function (option) waitForSlot :: "fetcher \<Rightarrow> fetcher option" where
  "waitForSlot st =
     (if activeRequests st \<ge> maxConcurrent st then waitForSlot (sleep 100 st)
      else Some (st\<lparr>activeRequests := activeRequests st + 1, trace := trace st @ [Acquire]\<rparr>))"

definition releaseSlot :: "fetcher \<Rightarrow> fetcher" where
  "releaseSlot st = st\<lparr>activeRequests := activeRequests st - 1, trace := trace st @ [Release]\<rparr>"

definition post_largest :: "helius_env \<Rightarrow> js_string \<Rightarrow> fetcher \<Rightarrow> largest_accounts http \<times> fetcher" where
  "post_largest env mintAddress st =
     (largestAccounts env (posts st) mintAddress,
      st\<lparr>posts := posts st + 1, trace := trace st @ [PostLargestAccounts mintAddress]\<rparr>)"

definition post_info :: "helius_env \<Rightarrow> string \<Rightarrow> fetcher \<Rightarrow> account_data http \<times> fetcher" where
  "post_info env tokenAccount st =
     (accountInfo env (posts st) tokenAccount,
      st\<lparr>posts := posts st + 1, trace := trace st @ [PostAccountInfo tokenAccount]\<rparr>)"

text \<open>How one pass through the body of the retry loop ends.\<close>

datatype attempt_outcome =
    Returned "string option"
  | Continue

text \<open>
  The \<open>catch (error)\<close> block: the slot is released; after a 429 or before the last
  attempt the fetcher sleeps and continues; on the last attempt the block just ends,
  and so does the loop.
\<close>

definition on_error :: "int option \<Rightarrow> nat \<Rightarrow> fetcher \<Rightarrow> attempt_outcome \<times> fetcher" where
  "on_error status attempt st =
     (let st1 = releaseSlot st
      in if status = Some 429 then (Continue, sleep (retryDelay * (int attempt + 2)) st1)
         else if attempt < maxRetries - 1 then (Continue, sleep (retryDelay * (int attempt + 2)) st1)
         else (Continue, st1))"

text \<open>\<open>activeAccounts = accounts.filter(acc => parseInt(acc.amount) > 0)\<close>.\<close>

definition is_active :: "token_account \<Rightarrow> bool" where
  "is_active acc = (case amount acc of None \<Rightarrow> False | Some n \<Rightarrow> n > 0)"

text \<open>
  The second half of the \<open>try\<close> block, from \<open>await sleep(200)\<close> on: the owner lookup for
  the token account.
\<close>

definition owner_lookup :: "helius_env \<Rightarrow> string \<Rightarrow> nat \<Rightarrow> fetcher \<Rightarrow> attempt_outcome \<times> fetcher" where
  "owner_lookup env tokenAccount attempt st =
     (case post_info env tokenAccount (sleep 200 st) of
        (Throws status, st1) \<Rightarrow> on_error status attempt st1
      | (Responds status body, st1) \<Rightarrow>
          if status = 429 then (Continue, sleep (retryDelay * (int attempt + 2)) (releaseSlot st1))
          else (case body of
             None \<Rightarrow> (Continue, sleep (retryDelay * (int attempt + 1)) (releaseSlot st1))
           | Some NoParsedData \<Rightarrow> (Continue, sleep retryDelay (releaseSlot st1))
           | Some ParsedNoInfo \<Rightarrow> on_error None attempt st1
           | Some (ParsedOwner ow) \<Rightarrow> (Returned ow, releaseSlot st1)))"

text \<open>
  The \<open>try\<close> block of one attempt, entered with the slot taken: the lookup of the largest
  token accounts, then the owner lookup for the first active one.
\<close>

definition try_attempt :: "helius_env \<Rightarrow> js_string \<Rightarrow> nat \<Rightarrow> fetcher \<Rightarrow> attempt_outcome \<times> fetcher" where
  "try_attempt env mintAddress attempt st =
     (case post_largest env mintAddress
             (if attempt > 0 then sleep (retryDelay * int attempt) st else st) of
        (Throws status, st1) \<Rightarrow> on_error status attempt st1
      | (Responds status body, st1) \<Rightarrow>
          if status = 429 then (Continue, sleep (retryDelay * (int attempt + 2)) (releaseSlot st1))
          else (case body of
             None \<Rightarrow> (Continue, sleep (retryDelay * (int attempt + 1)) (releaseSlot st1))
           | Some NotAList \<Rightarrow> on_error None attempt st1
           | Some (Accounts accounts) \<Rightarrow>
               (case filter is_active accounts of
                  [] \<Rightarrow> (Continue, sleep retryDelay (releaseSlot st1))
                | acc # other \<Rightarrow> owner_lookup env (account_address acc) attempt st1)))"

text \<open>
  \<open>for (let attempt = ...; attempt < maxRetries; attempt++) { await this.waitForSlot(); ... }\<close>
  followed by \<open>return null\<close>. The outer \<open>option\<close> is \<open>None\<close> when \<open>waitForSlot\<close> never
  returns.
\<close>

function retry_loop :: "helius_env \<Rightarrow> js_string \<Rightarrow> nat \<Rightarrow> fetcher \<Rightarrow> (string option \<times> fetcher) option" where
  "retry_loop env mintAddress attempt st =
     (if attempt < maxRetries then
        (case waitForSlot st of
           None \<Rightarrow> None
         | Some st1 \<Rightarrow>
             (case try_attempt env mintAddress attempt st1 of
                (Returned ow, st2) \<Rightarrow> Some (ow, st2)
              | (Continue, st2) \<Rightarrow> retry_loop env mintAddress (Suc attempt) st2))
      else Some (None, st))"
  by pat_completeness auto
termination
  by (relation "measure (\<lambda>(env, mintAddress, attempt, st). maxRetries - attempt)") auto

text \<open>
  \<open>String.prototype.trim\<close> removes the white space and the line terminators of
  ECMAScript from both ends: tab, line feed, vertical tab, form feed, carriage return,
  space, no-break space (U+00A0), the other space separators of Unicode (U+1680,
  U+2000 to U+200A, U+202F, U+205F, U+3000), the line and paragraph separators (U+2028,
  U+2029) and the byte order mark (U+FEFF). Each of them is a single code unit.
\<close>

definition is_space :: "code_unit \<Rightarrow> bool" where
  "is_space c \<longleftrightarrow>
     c \<in> {0x0009, 0x000A, 0x000B, 0x000C, 0x000D, 0x0020, 0x00A0, 0x1680, 0x2028, 0x2029,
          0x202F, 0x205F, 0x3000, 0xFEFF} \<or>
     (0x2000 \<le> c \<and> c \<le> 0x200A)"

definition js_trim :: "js_string \<Rightarrow> js_string" where
  "js_trim s = rev (dropWhile is_space (rev (dropWhile is_space s)))"

text \<open>
  \<open>!mintAddress || mintAddress.trim() === ''\<close>; \<open>None\<close> is an \<open>undefined\<close> argument.
\<close>

definition is_blank :: "js_string option \<Rightarrow> bool" where
  "is_blank mintAddress =
     (case mintAddress of None \<Rightarrow> True | Some m \<Rightarrow> m = [] \<or> js_trim m = [])"

definition getNFTOwner :: "helius_env \<Rightarrow> js_string option \<Rightarrow> fetcher \<Rightarrow> (string option \<times> fetcher) option" where
  "getNFTOwner env mintAddress st =
     (if is_blank mintAddress then Some (None, st)
      else retry_loop env (case mintAddress of Some m \<Rightarrow> m | None \<Rightarrow> []) 0 st)"

text \<open>
  A row of the earnings CSV: the column \<open>SolanaTokenId\<close> (\<open>None\<close> when the row has no such
  property) and the column \<open>OwnerWallet\<close> that \<open>processEarningsCSV\<close> adds; the other
  columns are carried along unchanged and are left out.
\<close>

record earnings_row =
  SolanaTokenId :: "js_string option"
  OwnerWallet :: "string option"

datatype csv_error = EmptyFile | MissingColumns

text \<open>\<open>row.SolanaTokenId && row.SolanaTokenId.trim() !== ''\<close>.\<close>

definition valid_row :: "earnings_row \<Rightarrow> bool" where
  "valid_row row =
     (case SolanaTokenId row of None \<Rightarrow> False | Some m \<Rightarrow> m \<noteq> [] \<and> js_trim m \<noteq> [])"

text \<open>
  \<open>batch.map(async (row) => { ... row.OwnerWallet = await this.getNFTOwner(row.SolanaTokenId) })\<close>
  joined by \<open>Promise.all\<close>. The lookups of a batch are run one after the other here.
\<close>

fun process_batch :: "helius_env \<Rightarrow> fetcher \<Rightarrow> earnings_row list \<Rightarrow> (earnings_row list \<times> fetcher) option" where
  "process_batch env st [] = Some ([], st)"
| "process_batch env st (row # batch) =
     (if SolanaTokenId row = None \<or> SolanaTokenId row = Some [] then
        (case process_batch env st batch of
           None \<Rightarrow> None
         | Some (rows, st') \<Rightarrow> Some (row # rows, st'))
      else
        (case getNFTOwner env (SolanaTokenId row) st of
           None \<Rightarrow> None
         | Some (ow, st1) \<Rightarrow>
             (case process_batch env st1 batch of
                None \<Rightarrow> None
              | Some (rows, st') \<Rightarrow> Some (row\<lparr>OwnerWallet := ow\<rparr> # rows, st'))))"

text \<open>
  \<open>for (let startIdx = 0; startIdx < validData.length; startIdx += BATCH_SIZE)\<close>: the rows
  of the batch are updated in place. With \<open>BATCH_SIZE = 0\<close> the loop never ends.
\<close>

partial_function (option) process_from ::
  "helius_env \<Rightarrow> nat \<Rightarrow> nat \<Rightarrow> fetcher \<Rightarrow> earnings_row list \<Rightarrow> (earnings_row list \<times> fetcher) option" where
  "process_from env B startIdx st validData =
     (if startIdx < length validData then
        (let endIdx = min (startIdx + B) (length validData)
         in case process_batch env st (take (endIdx - startIdx) (drop startIdx validData)) of
              None \<Rightarrow> None
            | Some (rows, st') \<Rightarrow>
                process_from env B (startIdx + B) (sleep 200 st')
                  (take startIdx validData @ rows @ drop endIdx validData))
      else Some (validData, st))"

text \<open>
  What a run leaves behind: the rows handed to \<open>saveCSV\<close> (which writes nothing for an
  empty list) and the counts of the summary; a row counts as found when its
  \<open>OwnerWallet\<close> is truthy.
\<close>

record earnings_result =
  written :: "earnings_row list"
  total_s :: nat
  found_s :: nat
  missing_s :: nat

definition has_owner :: "earnings_row \<Rightarrow> bool" where
  "has_owner row = (case OwnerWallet row of None \<Rightarrow> False | Some w \<Rightarrow> w \<noteq> [])"

text \<open>
  \<open>processEarningsCSV\<close> on the rows read from the input file, with \<open>BATCH_SIZE = B\<close>:
  an empty file and a first row without the column \<open>SolanaTokenId\<close> are errors.
\<close>

definition processEarningsCSV ::
  "helius_env \<Rightarrow> nat \<Rightarrow> fetcher \<Rightarrow> earnings_row list \<Rightarrow> (csv_error + earnings_result) option" where
  "processEarningsCSV env B st data =
     (case data of
        [] \<Rightarrow> Some (Inl EmptyFile)
      | firstRow # other \<Rightarrow>
          if SolanaTokenId firstRow = None then Some (Inl MissingColumns)
          else case process_from env B 0 st
                      (map (\<lambda>row. row\<lparr>OwnerWallet := None\<rparr>) (filter valid_row data)) of
                 None \<Rightarrow> None
               | Some (validData, st') \<Rightarrow>
                   Some (Inr \<lparr>written = validData,
                              total_s = length validData,
                              found_s = length (filter has_owner validData),
                              missing_s = length validData - length (filter has_owner validData)\<rparr>))"

text \<open>
  Observers of a trace. \<open>slot_posts\<close> lists, for every slot taken, the number of HTTP
  round trips made before the slot is given back. \<open>balanced held\<close> holds of a trace that,
  started with the slot held or not, takes a slot only when it holds none, gives back
  only a slot it holds, makes its round trips under a slot, and ends holding none.
\<close>

fun is_post :: "event \<Rightarrow> bool" where
  "is_post (PostLargestAccounts m) = True"
| "is_post (PostAccountInfo a) = True"
| "is_post e = False"

fun slot_posts :: "event list \<Rightarrow> nat list" where
  "slot_posts [] = []"
| "slot_posts (Acquire # es) =
     length (filter is_post (takeWhile (\<lambda>e. e \<noteq> Release) es)) # slot_posts es"
| "slot_posts (e # es) = slot_posts es"

fun balanced :: "bool \<Rightarrow> event list \<Rightarrow> bool" where
  "balanced held [] = (\<not> held)"
| "balanced held (Acquire # es) = (\<not> held \<and> balanced True es)"
| "balanced held (Release # es) = (held \<and> balanced False es)"
| "balanced held (Sleep ms # es) = balanced held es"
| "balanced held (e # es) = (held \<and> balanced held es)"

section \<open>Vocabulary of the proofs\<close>

text \<open>
  The invariant of the loops of \<open>snapshotNFTs\<close>: \<open>tokensToRecheck\<close> has no duplicates and
  shares no token with \<open>finalSnapshot\<close>, \<open>totalFound\<close> counts the entries of
  \<open>finalSnapshot\<close>, and every recorded owner is a non-empty string other than the zero
  address. \<open>covered\<close> is the set of tokens that have been looked at.
\<close>

definition consistent :: "snapshot_state \<Rightarrow> bool" where
  "consistent st \<longleftrightarrow>
     distinct (tokensToRecheck st) \<and>
     dom (finalSnapshot st) \<inter> set (tokensToRecheck st) = {} \<and>
     finite (dom (finalSnapshot st)) \<and>
     totalFound st = card (dom (finalSnapshot st)) \<and>
     (\<forall>tokenId r. finalSnapshot st tokenId = Some r \<longrightarrow> owner r \<noteq> [] \<and> owner r \<noteq> ZeroAddress)"

definition covered :: "snapshot_state \<Rightarrow> token_id set" where
  "covered st = dom (finalSnapshot st) \<union> set (tokensToRecheck st)"

text \<open>One result of the initial sweep.\<close>

definition record_one :: "int \<Rightarrow> snapshot_state \<Rightarrow> token_id \<times> address option \<Rightarrow> snapshot_state" where
  "record_one blk st res = record_results blk st [res]"

text \<open>One result of a recheck pass.\<close>

definition recheck_one :: "int \<Rightarrow> snapshot_state \<Rightarrow> token_id \<times> address option \<Rightarrow> snapshot_state" where
  "recheck_one blk st res = recheck_results blk st [res]"

text \<open>
  How a recheck step may change a state: the invariant is kept, the tokens looked at are
  the same, entries of \<open>finalSnapshot\<close> are only added, and \<open>tokensToRecheck\<close> only loses
  members.
\<close>

definition shrinks :: "snapshot_state \<Rightarrow> snapshot_state \<Rightarrow> bool" where
  "shrinks a b \<longleftrightarrow>
     consistent b \<and> covered b = covered a \<and>
     finalSnapshot a \<subseteq>\<^sub>m finalSnapshot b \<and>
     set (tokensToRecheck b) \<subseteq> set (tokensToRecheck a)"

text \<open>The same vocabulary for the multi-chain snapshotter.\<close>

definition consistent_p :: "panda_state \<Rightarrow> bool" where
  "consistent_p st \<longleftrightarrow>
     distinct (tokensToRecheck_p st) \<and>
     dom (finalSnapshot_p st) \<inter> set (tokensToRecheck_p st) = {} \<and>
     finite (dom (finalSnapshot_p st)) \<and>
     (\<forall>tokenId r. finalSnapshot_p st tokenId = Some r \<longrightarrow> owner_p r \<noteq> [] \<and> owner_p r \<noteq> ZeroAddress)"

definition covered_p :: "panda_state \<Rightarrow> token_id set" where
  "covered_p st = dom (finalSnapshot_p st) \<union> set (tokensToRecheck_p st)"

definition sweep_one :: "chains \<Rightarrow> chain_result list \<Rightarrow> panda_state \<Rightarrow> token_id \<Rightarrow> panda_state" where
  "sweep_one chs crs st tokenId = sweep_tokens chs crs st [tokenId]"

definition recheck_token :: "chains \<Rightarrow> chain_result list \<Rightarrow> panda_state \<Rightarrow> token_id \<Rightarrow> panda_state" where
  "recheck_token chs crs st tokenId = recheck_tokens chs crs st [tokenId]"

definition shrinks_p :: "panda_state \<Rightarrow> panda_state \<Rightarrow> bool" where
  "shrinks_p a b \<longleftrightarrow>
     consistent_p b \<and> covered_p b = covered_p a \<and>
     finalSnapshot_p a \<subseteq>\<^sub>m finalSnapshot_p b \<and>
     set (tokensToRecheck_p b) \<subseteq> set (tokensToRecheck_p a)"


text \<open>
  The number of HTTP round trips of a trace before the first \<open>Release\<close>: the round trips
  made under the slot that is held when the trace starts.
\<close>

definition slot_count :: "event list \<Rightarrow> nat" where
  "slot_count evs = length (filter is_post (takeWhile (\<lambda>e. e \<noteq> Release) evs))"

text \<open>
  \<open>answered env st row w\<close>: the written row \<open>w\<close> is the input row \<open>row\<close> with the column
  \<open>OwnerWallet\<close> holding what a call of \<open>getNFTOwner\<close> for the row's token has returned,
  at a gate configured and occupied as in \<open>st\<close>.
\<close>

definition answered :: "helius_env \<Rightarrow> fetcher \<Rightarrow> earnings_row \<Rightarrow> earnings_row \<Rightarrow> bool" where
  "answered env st row w \<longleftrightarrow>
     SolanaTokenId w = SolanaTokenId row \<and>
     (\<exists>st1 st2. maxConcurrent st1 = maxConcurrent st \<and> activeRequests st1 = activeRequests st \<and>
        getNFTOwner env (SolanaTokenId row) st1 = Some (OwnerWallet w, st2))"

text \<open>
  The state of a run after \<open>p\<close> complete recheck passes and the first \<open>k\<close> groups of the
  next pass, from the state \<open>s0\<close> that the initial sweep leaves.
\<close>

definition recheck_state :: "rpc_env \<Rightarrow> int \<Rightarrow> int \<Rightarrow> snapshot_state \<Rightarrow> nat \<Rightarrow> nat \<Rightarrow> snapshot_state" where
  "recheck_state env blk B s0 p k =
     foldl (recheck_group env blk (Suc p)) (recheck_upto env blk B p s0)
       (take k (recheck_batches B (int (Suc p)) 0 (tokensToRecheck (recheck_upto env blk B p s0))))"

definition panda_recheck_state ::
  "(chain_config \<Rightarrow> bool) \<Rightarrow> (string \<Rightarrow> rpc_env) \<Rightarrow> chains \<Rightarrow> int \<Rightarrow> panda_state \<Rightarrow> nat \<Rightarrow> nat
     \<Rightarrow> panda_state" where
  "panda_recheck_state elig envs chs B s0 p k =
     foldl (panda_recheck_group elig envs chs (Suc p)) (panda_recheck_upto elig envs chs B p s0)
       (take k (recheck_batches B (int (Suc p)) 0
                  (tokensToRecheck_p (panda_recheck_upto elig envs chs B p s0))))"

section \<open>Example runs\<close>

text \<open>
  A network for the single-chain snapshotter with three tokens: token 1 is owned from the
  start, the lookup of token 2 throws in the initial sweep and answers afterwards,
  token 3 is always reported with the zero address; the fourth invocation of
  \<open>getTokenOwnerBatch\<close> throws as a whole.
\<close>

definition example_env :: rpc_env where
  "example_env =
     \<lparr>contract_throws = (\<lambda>n. n = 3),
      ownerOf = (\<lambda>n k tokenId.
         if tokenId = 1 then Some ''0xA1''
         else if tokenId = 2 \<and> 2 \<le> n then Some ''0xB2''
         else if tokenId = 3 then Some ZeroAddress
         else None)\<rparr>"

text \<open>
  Three chains for the multi-chain snapshotter; the second has no snapshot block. On
  the first chain only token 1 has an owner. The third chain reports an owner for token
  1 as well, reports token 2 from the fifth invocation on, and the zero address
  otherwise. The second chain would report an owner for every token.
\<close>

definition example_chains :: chains where
  "example_chains =
     [(''ethereum'', \<lparr>rpc = Some ''https://eth'', chainId = 1, snapshotBlock = Some 100\<rparr>),
      (''arbitrum'', \<lparr>rpc = Some ''https://arb'', chainId = 42161, snapshotBlock = None\<rparr>),
      (''polygon'', \<lparr>rpc = Some ''https://poly'', chainId = 137, snapshotBlock = Some 300\<rparr>)]"

definition example_envs :: "string \<Rightarrow> rpc_env" where
  "example_envs chainName =
     \<lparr>contract_throws = (\<lambda>n. False),
      ownerOf = (\<lambda>n k tokenId.
         if chainName = ''ethereum'' then (if tokenId = 1 then Some ''0xA1'' else None)
         else if chainName = ''polygon'' then
           (if tokenId = 1 then Some ''0xC3''
            else if tokenId = 2 \<and> 4 \<le> n then Some ''0xB2''
            else Some ZeroAddress)
         else Some ''0xDD'')\<rparr>"

text \<open>The states that the initial sweeps of the two example runs leave.\<close>

definition example_swept :: snapshot_state where
  "example_swept =
     \<lparr>finalSnapshot = [1 \<mapsto> \<lparr>owner = ''0xA1'', block = 100\<rparr>],
      tokensToRecheck = [2, 3], totalFound = 1, calls = 2\<rparr>"

definition example_swept_p :: panda_state where
  "example_swept_p =
     \<lparr>finalSnapshot_p = [1 \<mapsto> \<lparr>owner_p = ''0xA1'', chain_p = ''ethereum'', block_p = Some 100\<rparr>],
      tokensToRecheck_p = [2, 3],
      chainStats = (\<lambda>chainName. 0)(''ethereum'' := 1), calls_p = 4\<rparr>"

text \<open>
  Two mint addresses, the code units of \<open>mintA\<close> and \<open>mintB\<close>. Example networks for the
  Solana fetcher: one that answers every request, one whose first request fails at the
  transport level, one where every request fails, and one that knows the first mint
  only. A fetcher at rest with the default \<open>MAX_CONCURRENT\<close>, and one configured with
  \<open>MAX_CONCURRENT=0\<close>.
\<close>

definition mintA :: js_string where
  "mintA = [0x6D, 0x69, 0x6E, 0x74, 0x41]"

definition mintB :: js_string where
  "mintB = [0x6D, 0x69, 0x6E, 0x74, 0x42]"

definition helius_ok :: helius_env where
  "helius_ok =
     \<lparr>largestAccounts = (\<lambda>n mintAddress.
        Responds 200 (Some (Accounts [\<lparr>account_address = ''acct1'', amount = Some 1\<rparr>]))),
      accountInfo = (\<lambda>n tokenAccount. Responds 200 (Some (ParsedOwner (Some ''wallet1''))))\<rparr>"

definition helius_flaky :: helius_env where
  "helius_flaky =
     \<lparr>largestAccounts = (\<lambda>n mintAddress.
        if n = 0 then Throws None
        else Responds 200 (Some (Accounts [\<lparr>account_address = ''acct1'', amount = Some 1\<rparr>]))),
      accountInfo = (\<lambda>n tokenAccount. Responds 200 (Some (ParsedOwner (Some ''wallet1''))))\<rparr>"

definition helius_down :: helius_env where
  "helius_down =
     \<lparr>largestAccounts = (\<lambda>n mintAddress. Throws None),
      accountInfo = (\<lambda>n tokenAccount. Throws None)\<rparr>"

definition helius_partial :: helius_env where
  "helius_partial =
     \<lparr>largestAccounts = (\<lambda>n mintAddress.
        if mintAddress = mintA
        then Responds 200 (Some (Accounts [\<lparr>account_address = ''acct1'', amount = Some 1\<rparr>]))
        else Throws None),
      accountInfo = (\<lambda>n tokenAccount. Responds 200 (Some (ParsedOwner (Some ''wallet1''))))\<rparr>"

definition idle_fetcher :: fetcher where
  "idle_fetcher = \<lparr>maxConcurrent = 30, activeRequests = 0, posts = 0, trace = []\<rparr>"


text \<open>
  A network on which no token ever has an owner, for seven tokens and \<open>BATCH_SIZE = 12\<close>:
  the recheck passes then work on all seven tokens, in groups of 12, 6 and 5.
\<close>

definition silent_env :: rpc_env where
  "silent_env = \<lparr>contract_throws = (\<lambda>n. False), ownerOf = (\<lambda>n k tokenId. None)\<rparr>"

definition silent_swept :: snapshot_state where
  "silent_swept =
     \<lparr>finalSnapshot = Map.empty, tokensToRecheck = [1, 2, 3, 4, 5, 6, 7], totalFound = 0, calls = 1\<rparr>"

definition silent_swept_p :: panda_state where
  "silent_swept_p =
     \<lparr>finalSnapshot_p = Map.empty, tokensToRecheck_p = [1, 2, 3, 4, 5, 6, 7],
      chainStats = (\<lambda>chainName. 0), calls_p = 2\<rparr>"

section \<open>Simplifier setup\<close>

text \<open>The recursive equations of the loops are unfolded by hand.\<close>

declare batch_from.simps [simp del]
declare recheck_batches.simps [simp del]
declare recheck_loop.simps [simp del]
declare panda_recheck_loop.simps [simp del]
declare retry_loop.simps [simp del]

section \<open>Batches: properties\<close>

lemma batch_from_upto: "batch_from T B i j = [i + j .. min (i + B - 1) T]"
proof (induction T B i j rule: batch_from.induct)
  case (1 T B i j)
  show ?case
  proof (cases "j < B \<and> i + j \<le> T")
    case True
    then have le: "i + j \<le> min (i + B - 1) T" by simp
    have "batch_from T B i j = (i + j) # batch_from T B i (j + 1)"
      using True by (subst batch_from.simps) simp
    also have "\<dots> = (i + j) # [i + (j + 1) .. min (i + B - 1) T]"
      using 1 True by simp
    also have "\<dots> = [i + j .. min (i + B - 1) T]"
      using le by (simp add: upto_rec1 add.assoc)
    finally show ?thesis .
  next
    case False
    have e: "batch_from T B i j = []"
      using False by (subst batch_from.simps) simp
    have "min (i + B - 1) T < i + j"
      using False by auto
    then show ?thesis using e by simp
  qed
qed

lemma batch_from_0: "batch_from T B i 0 = [i .. min (i + B - 1) T]"
  using batch_from_upto [of T B i 0] by simp

lemma partitions_by_Cons:
  assumes "partitions_by n ys gs" and "g \<noteq> []" and "length g \<le> n"
    and "gs \<noteq> [] \<Longrightarrow> length g = n"
  shows "partitions_by n (g @ ys) (g # gs)"
  using assms by (auto simp: partitions_by_def)

lemma partitions_by_Nil: "partitions_by n [] []"
  by (simp add: partitions_by_def)

lemma recheck_batches_drop:
  "partitions_by (nat (recheck_batch_size B pass)) (drop i xs) (recheck_batches B pass i xs)"
proof (induction B pass i xs rule: recheck_batches.induct)
  case (1 B pass i xs)
  let ?n = "nat (recheck_batch_size B pass)"
  have pos: "0 < ?n" by (simp add: recheck_batch_size_def)
  show ?case
  proof (cases "i < length xs")
    case True
    let ?g = "take ?n (drop i xs)"
    let ?rest = "recheck_batches B pass (i + ?n) xs"
    have unf: "recheck_batches B pass i xs = ?g # ?rest"
      using True by (subst recheck_batches.simps) simp
    have ih: "partitions_by ?n (drop (i + ?n) xs) ?rest"
      using 1 True by simp
    have g_ne: "?g \<noteq> []" using True pos by simp
    have g_le: "length ?g \<le> ?n" by simp
    have g_full: "length ?g = ?n" if "?rest \<noteq> []"
    proof -
      have "i + ?n < length xs"
      proof (rule ccontr)
        assume "\<not> i + ?n < length xs"
        then have "?rest = []" by (subst recheck_batches.simps) simp
        with that show False by simp
      qed
      then show ?thesis by simp
    qed
    have "partitions_by ?n (?g @ drop (i + ?n) xs) (?g # ?rest)"
      using ih g_ne g_le g_full by (rule partitions_by_Cons)
    moreover have "?g @ drop (i + ?n) xs = drop i xs"
      by (metis add.commute append_take_drop_id drop_drop)
    ultimately show ?thesis using unf by simp
  next
    case False
    then have "recheck_batches B pass i xs = []"
      by (subst recheck_batches.simps) simp
    then show ?thesis using False by (simp add: partitions_by_Nil)
  qed
qed

lemma recheck_batches_partition:
  "partitions_by (nat (recheck_batch_size B pass)) xs (recheck_batches B pass 0 xs)"
  using recheck_batches_drop [of B pass 0 xs] by simp

lemma initial_batches_from:
  assumes "0 < B"
  shows "\<exists>bs. initial_batches T B i = Some bs \<and> partitions_by (nat B) [i .. T] bs"
proof (induction "nat (T + 1 - i)" arbitrary: i rule: less_induct)
  case less
  show ?case
  proof (cases "i \<le> T")
    case True
    have "nat (T + 1 - (i + B)) < nat (T + 1 - i)"
      using True assms by simp
    then obtain rest where rest: "initial_batches T B (i + B) = Some rest"
      and part: "partitions_by (nat B) [i + B .. T] rest"
      using less by blast
    let ?g = "batch_from T B i 0"
    have g: "?g = [i .. min (i + B - 1) T]" by (rule batch_from_0)
    have unf: "initial_batches T B i = Some (?g # rest)"
      using True rest by (subst initial_batches.simps) simp
    have g_ne: "?g \<noteq> []" using True assms by (simp add: g)
    have g_le: "length ?g \<le> nat B" using True assms by (simp add: g)
    have g_full: "length ?g = nat B" if "rest \<noteq> []"
    proof -
      have "i + B \<le> T"
      proof (rule ccontr)
        assume "\<not> i + B \<le> T"
        then have "initial_batches T B (i + B) = Some []"
          by (subst initial_batches.simps) simp
        with rest that show False by simp
      qed
      then show ?thesis using assms by (simp add: g)
    qed
    have "partitions_by (nat B) (?g @ [i + B .. T]) (?g # rest)"
      using part g_ne g_le g_full by (rule partitions_by_Cons)
    moreover have "?g @ [i + B .. T] = [i .. T]"
    proof (cases "i + B \<le> T")
      case le: True
      then have "min (i + B - 1) T = i + B - 1" by simp
      moreover have "[i .. T] = [i .. i + B - 1] @ [i + B .. T]"
        using le assms upto_split1 [of i "i + B" T] by simp
      ultimately show ?thesis by (simp add: g)
    next
      case gt: False
      then show ?thesis by (simp add: g)
    qed
    ultimately show ?thesis using unf by simp
  next
    case False
    then have "initial_batches T B i = Some []"
      by (subst initial_batches.simps) simp
    then show ?thesis using False by (simp add: partitions_by_Nil)
  qed
qed



lemma map_le_SomeD: "m1 \<subseteq>\<^sub>m m2 \<Longrightarrow> m1 k = Some v \<Longrightarrow> m2 k = Some v"
  unfolding map_le_def by (drule bspec [where x = k]) auto


section \<open>The single-chain snapshotter: invariants\<close>



lemma initial_batches_nonpos:
  assumes "initial_batches T B i = Some bs"
  shows "B \<le> 0 \<longrightarrow> T < i"
proof (rule initial_batches.raw_induct [where P = "\<lambda>T B i bs. B \<le> 0 \<longrightarrow> T < i", OF _ assms])
  fix f :: "int \<Rightarrow> int \<Rightarrow> int \<Rightarrow> token_id list list option" and T B i bs
  assume ih: "\<And>T B i bs. f T B i = Some bs \<Longrightarrow> B \<le> 0 \<longrightarrow> T < i"
    and eq: "(if i \<le> T then Option.bind (f T B (i + B)) (\<lambda>rest. Some (batch_from T B i 0 # rest))
               else Some []) = Some bs"
  show "B \<le> 0 \<longrightarrow> T < i"
  proof (intro impI, rule ccontr)
    assume nonpos: "B \<le> 0" and "\<not> T < i"
    then have le: "i \<le> T" by simp
    with eq obtain rest where "f T B (i + B) = Some rest"
      by (auto split: bind_splits)
    then have "T < i + B" using ih nonpos by blast
    with le nonpos show False by simp
  qed
qed

lemma initial_batches_concat:
  assumes "initial_batches T B i = Some bs"
  shows "concat bs = [i .. T]"
proof (cases "0 < B")
  case True
  then obtain bs' where "initial_batches T B i = Some bs'" "partitions_by (nat B) [i .. T] bs'"
    using initial_batches_from by blast
  with assms show ?thesis by (simp add: partitions_by_def)
next
  case False
  then have "T < i" using assms initial_batches_nonpos by fastforce
  moreover from this have "initial_batches T B i = Some []"
    by (subst initial_batches.simps) simp
  ultimately show ?thesis using assms by simp
qed

lemma found_owner_Some: "found_owner ow = Some a \<Longrightarrow> ow = Some a \<and> a \<noteq> [] \<and> a \<noteq> ZeroAddress"
  by (auto simp: found_owner_def split: option.splits if_splits)

lemma set_set_add: "set (set_add x xs) = insert x (set xs)"
  by (auto simp: set_add_def)

lemma distinct_set_add: "distinct xs \<Longrightarrow> distinct (set_add x xs)"
  by (simp add: set_add_def)

lemma set_set_delete: "set (set_delete x xs) = set xs - {x}"
  by (auto simp: set_delete_def)

lemma distinct_set_delete: "distinct xs \<Longrightarrow> distinct (set_delete x xs)"
  by (simp add: set_delete_def distinct_removeAll)

lemma getTokenOwnerBatch_ids: "getTokenOwnerBatch env n ids = Inr rs \<Longrightarrow> map fst rs = ids"
proof -
  assume "getTokenOwnerBatch env n ids = Inr rs"
  then have rs: "rs = map (\<lambda>(k, tokenId). (tokenId, ownerOf env n k tokenId)) (enumerate 0 ids)"
    by (simp add: getTokenOwnerBatch_def split: if_splits)
  have "map fst rs = map snd (enumerate 0 ids)"
    unfolding rs by (simp add: case_prod_unfold comp_def)
  then show ?thesis by simp
qed

lemma record_one_step:
  assumes "consistent st" and "fst res \<notin> covered st"
  shows "consistent (record_one blk st res)"
    and "covered (record_one blk st res) = insert (fst res) (covered st)"
    and "finalSnapshot st \<subseteq>\<^sub>m finalSnapshot (record_one blk st res)"
proof -
  obtain tokenId ow where res: "res = (tokenId, ow)" by (cases res)
  show "consistent (record_one blk st res)"
    using assms unfolding res record_one_def consistent_def covered_def
    by (auto simp: set_set_add distinct_set_add domIff dest!: found_owner_Some split: option.splits)
  show "covered (record_one blk st res) = insert (fst res) (covered st)"
    unfolding res record_one_def covered_def
    by (auto simp: set_set_add split: option.splits)
  show "finalSnapshot st \<subseteq>\<^sub>m finalSnapshot (record_one blk st res)"
    using assms unfolding res record_one_def covered_def map_le_def
    by (auto simp: domIff split: option.splits)
qed

lemma record_results_Cons:
  "record_results blk st (res # rs) = record_results blk (record_one blk st res) rs"
  by (cases res) (simp add: record_one_def)

lemma record_results_inv:
  assumes "consistent st" and "distinct (map fst rs)" and "set (map fst rs) \<inter> covered st = {}"
  shows "consistent (record_results blk st rs) \<and>
         covered (record_results blk st rs) = covered st \<union> set (map fst rs) \<and>
         finalSnapshot st \<subseteq>\<^sub>m finalSnapshot (record_results blk st rs) \<and>
         calls (record_results blk st rs) = calls st"
  using assms
proof (induction rs arbitrary: st)
  case Nil
  then show ?case by simp
next
  case (Cons res rs)
  let ?st1 = "record_one blk st res"
  have notin: "fst res \<notin> covered st" using Cons.prems by auto
  have c1: "consistent ?st1" and cov1: "covered ?st1 = insert (fst res) (covered st)"
    and le1: "finalSnapshot st \<subseteq>\<^sub>m finalSnapshot ?st1"
    using record_one_step [OF Cons.prems(1) notin] by blast+
  have calls1: "calls ?st1 = calls st"
    by (cases res) (simp add: record_one_def split: option.splits)
  have "distinct (map fst rs)" and "set (map fst rs) \<inter> covered ?st1 = {}"
    using Cons.prems cov1 by auto
  from Cons.IH [OF c1 this]
  show ?case
    using le1 cov1 calls1 by (auto simp: record_results_Cons intro: map_le_trans)
qed



lemma consistent_calls [simp]: "consistent (st\<lparr>calls := n\<rparr>) = consistent st"
  by (simp add: consistent_def)

lemma covered_calls [simp]: "covered (st\<lparr>calls := n\<rparr>) = covered st"
  by (simp add: covered_def)

lemma initial_sweep_inv:
  assumes "consistent st" and "distinct (concat bs)" and "set (concat bs) \<inter> covered st = {}"
    and "initial_sweep env blk st bs = Inr st'"
  shows "consistent st' \<and> covered st' = covered st \<union> set (concat bs) \<and>
         finalSnapshot st \<subseteq>\<^sub>m finalSnapshot st'"
  using assms
proof (induction bs arbitrary: st)
  case Nil
  then show ?case by simp
next
  case (Cons b bs)
  from Cons.prems(4) obtain rs where rs: "getTokenOwnerBatch env (calls st) b = Inr rs"
    and rest: "initial_sweep env blk (record_results blk (st\<lparr>calls := calls st + 1\<rparr>) rs) bs = Inr st'"
    by (auto split: sum.splits)
  let ?st0 = "st\<lparr>calls := calls st + 1\<rparr>"
  let ?st1 = "record_results blk ?st0 rs"
  have ids: "map fst rs = b" using rs by (rule getTokenOwnerBatch_ids)
  have "consistent ?st0" using Cons.prems(1) by simp
  moreover have "distinct (map fst rs)" using Cons.prems(2) ids by simp
  moreover have "set (map fst rs) \<inter> covered ?st0 = {}" using Cons.prems(3) ids by auto
  ultimately have step: "consistent ?st1 \<and> covered ?st1 = covered ?st0 \<union> set (map fst rs) \<and>
      finalSnapshot ?st0 \<subseteq>\<^sub>m finalSnapshot ?st1 \<and> calls ?st1 = calls ?st0"
    by (rule record_results_inv)
  have "distinct (concat bs)" using Cons.prems(2) by simp
  moreover have "set (concat bs) \<inter> covered ?st1 = {}"
    using Cons.prems(2,3) step ids by auto
  ultimately have "consistent st' \<and> covered st' = covered ?st1 \<union> set (concat bs) \<and>
      finalSnapshot ?st1 \<subseteq>\<^sub>m finalSnapshot st'"
    using Cons.IH [of ?st1] step rest by blast
  moreover have "finalSnapshot st \<subseteq>\<^sub>m finalSnapshot ?st1" using step by simp
  ultimately show ?case using step ids by (auto intro: map_le_trans)
qed

lemma shrinks_refl: "consistent a \<Longrightarrow> shrinks a a"
  by (simp add: shrinks_def)

lemma shrinks_trans: "shrinks a b \<Longrightarrow> shrinks b c \<Longrightarrow> shrinks a c"
  unfolding shrinks_def by (auto intro: map_le_trans)

lemma shrinks_consistent: "shrinks a b \<Longrightarrow> consistent b"
  by (simp add: shrinks_def)

lemma shrinks_calls: "consistent a \<Longrightarrow> shrinks a (a\<lparr>calls := n\<rparr>)"
  by (simp add: shrinks_def covered_def)

lemma recheck_one_step:
  assumes "consistent st"
  shows "shrinks st (recheck_one blk st res)"
proof -
  obtain tokenId ow where res: "res = (tokenId, ow)" by (cases res)
  have "consistent (recheck_one blk st res)"
    using assms unfolding res recheck_one_def consistent_def
    by (auto simp: set_set_delete distinct_set_delete domIff card_insert_if
             dest!: found_owner_Some split: option.splits)
  moreover have "covered (recheck_one blk st res) = covered st"
    unfolding res recheck_one_def covered_def
    by (auto simp: set_set_delete split: option.splits)
  moreover have "finalSnapshot st \<subseteq>\<^sub>m finalSnapshot (recheck_one blk st res)"
    using assms unfolding res recheck_one_def consistent_def map_le_def
    by (auto simp: domIff split: option.splits)
  moreover have "set (tokensToRecheck (recheck_one blk st res)) \<subseteq> set (tokensToRecheck st)"
    unfolding res recheck_one_def
    by (auto simp: set_set_delete split: option.splits)
  ultimately show ?thesis by (simp add: shrinks_def)
qed

lemma recheck_results_Cons:
  "recheck_results blk st (res # rs) = recheck_results blk (recheck_one blk st res) rs"
  by (cases res) (simp add: recheck_one_def)

lemma recheck_results_shrinks:
  "consistent st \<Longrightarrow> shrinks st (recheck_results blk st rs)"
proof (induction rs arbitrary: st)
  case Nil
  then show ?case by (simp add: shrinks_refl)
next
  case (Cons res rs)
  have s1: "shrinks st (recheck_one blk st res)"
    using Cons.prems by (rule recheck_one_step)
  then have "shrinks (recheck_one blk st res) (recheck_results blk (recheck_one blk st res) rs)"
    using Cons.IH shrinks_consistent by blast
  with s1 show ?case by (auto simp: recheck_results_Cons intro: shrinks_trans)
qed

lemma recheck_group_shrinks:
  assumes "consistent st"
  shows "shrinks st (recheck_group env blk pass st batch)"
proof (cases "fetch_with_retry env (calls st) pass batch")
  case (Pair res n)
  have c: "shrinks st (st\<lparr>calls := n\<rparr>)" using assms by (rule shrinks_calls)
  show ?thesis
  proof (cases res)
    case None
    then show ?thesis using Pair c by (simp add: recheck_group_def)
  next
    case (Some rs)
    have "shrinks (st\<lparr>calls := n\<rparr>) (recheck_results blk (st\<lparr>calls := n\<rparr>) rs)"
      using assms by (simp add: recheck_results_shrinks)
    with c have "shrinks st (recheck_results blk (st\<lparr>calls := n\<rparr>) rs)"
      by (rule shrinks_trans)
    then show ?thesis using Pair Some by (simp add: recheck_group_def)
  qed
qed

lemma recheck_groups_shrinks:
  "consistent st \<Longrightarrow> shrinks st (foldl (recheck_group env blk pass) st gs)"
proof (induction gs arbitrary: st)
  case Nil
  then show ?case by (simp add: shrinks_refl)
next
  case (Cons g gs)
  have s1: "shrinks st (recheck_group env blk pass st g)"
    using Cons.prems by (rule recheck_group_shrinks)
  then have "shrinks (recheck_group env blk pass st g)
      (foldl (recheck_group env blk pass) (recheck_group env blk pass st g) gs)"
    using Cons.IH shrinks_consistent by blast
  with s1 show ?case by (auto intro: shrinks_trans)
qed

lemma recheck_pass_shrinks:
  "consistent st \<Longrightarrow> shrinks st (recheck_pass env blk B pass st)"
  unfolding recheck_pass_def by (rule recheck_groups_shrinks)

lemma recheck_loop_shrinks:
  "consistent st \<Longrightarrow> shrinks st (recheck_loop env blk B lastPass pass st)"
proof (induction env blk B lastPass pass st rule: recheck_loop.induct)
  case (1 env blk B lastPass pass st)
  show ?case
  proof (cases "pass \<le> lastPass \<and> length (tokensToRecheck st) \<noteq> 0")
    case True
    let ?st1 = "recheck_pass env blk B pass st"
    have s1: "shrinks st ?st1" using "1.prems" by (rule recheck_pass_shrinks)
    then have "shrinks ?st1 (recheck_loop env blk B lastPass (Suc pass) ?st1)"
      using "1.IH" True shrinks_consistent by blast
    with s1 have "shrinks st (recheck_loop env blk B lastPass (Suc pass) ?st1)"
      by (rule shrinks_trans)
    moreover have "recheck_loop env blk B lastPass pass st =
        recheck_loop env blk B lastPass (Suc pass) ?st1"
      using True by (subst recheck_loop.simps) simp
    ultimately show ?thesis by simp
  next
    case False
    then have "recheck_loop env blk B lastPass pass st = st"
      by (subst recheck_loop.simps) auto
    then show ?thesis using "1.prems" by (simp add: shrinks_refl)
  qed
qed

lemma recheck_upto_shrinks:
  "consistent st \<Longrightarrow> shrinks st (recheck_upto env blk B lastPass st)"
  by (simp add: recheck_upto_def recheck_loop_shrinks shrinks_refl)

lemma recheck_loop_Suc:
  "pass \<le> Suc lastPass \<Longrightarrow>
   recheck_loop env blk B (Suc lastPass) pass st =
     (let s = recheck_loop env blk B lastPass pass st
      in if length (tokensToRecheck s) = 0 then s else recheck_pass env blk B (Suc lastPass) s)"
proof (induction env blk B lastPass pass st rule: recheck_loop.induct)
  case (1 env blk B lastPass pass st)
  show ?case
  proof (cases "pass \<le> lastPass")
    case True
    show ?thesis
    proof (cases "length (tokensToRecheck st) = 0")
      case empty: True
      have "recheck_loop env blk B (Suc lastPass) pass st = st"
        using empty by (subst recheck_loop.simps) simp
      moreover have "recheck_loop env blk B lastPass pass st = st"
        using empty by (subst recheck_loop.simps) simp
      ultimately show ?thesis using empty by simp
    next
      case nonempty: False
      let ?st1 = "recheck_pass env blk B pass st"
      have l: "recheck_loop env blk B (Suc lastPass) pass st =
          recheck_loop env blk B (Suc lastPass) (Suc pass) ?st1"
        using nonempty True by (subst recheck_loop.simps) simp
      have r: "recheck_loop env blk B lastPass pass st =
          recheck_loop env blk B lastPass (Suc pass) ?st1"
        using nonempty True by (subst recheck_loop.simps) simp
      show ?thesis
        unfolding l r using "1.IH" [OF True nonempty] True by simp
    qed
  next
    case False
    with "1.prems" have eq: "pass = Suc lastPass" by simp
    have r: "recheck_loop env blk B lastPass pass st = st"
      using False by (subst recheck_loop.simps) simp
    have beyond: "recheck_loop env blk B (Suc lastPass) (Suc pass) s = s" for s
      using eq by (subst recheck_loop.simps) simp
    have "recheck_loop env blk B (Suc lastPass) pass st =
        (if length (tokensToRecheck st) = 0 then st
         else recheck_loop env blk B (Suc lastPass) (Suc pass) (recheck_pass env blk B pass st))"
      using eq by (subst recheck_loop.simps) simp
    then have l: "recheck_loop env blk B (Suc lastPass) pass st =
        (if length (tokensToRecheck st) = 0 then st else recheck_pass env blk B pass st)"
      by (simp only: beyond)
    show ?thesis unfolding l r using eq by simp
  qed
qed

lemma recheck_upto_0: "recheck_upto env blk B 0 st = st"
proof -
  have "recheck_loop env blk B 0 1 st = st"
    by (subst recheck_loop.simps) simp
  then show ?thesis by (simp add: recheck_upto_def)
qed

lemma recheck_upto_Suc:
  "recheck_upto env blk B (Suc p) st =
     (let s = recheck_upto env blk B p st
      in if length (tokensToRecheck s) = 0 then s else recheck_pass env blk B (Suc p) s)"
proof (cases "length (tokensToRecheck st) > 0")
  case True
  then show ?thesis
    using recheck_loop_Suc [of 1 p env blk B st] by (simp add: recheck_upto_def)
next
  case False
  then show ?thesis by (simp add: recheck_upto_def)
qed



lemma consistent_init: "consistent init_state"
  by (simp add: consistent_def init_state_def)

lemma covered_init: "covered init_state = {}"
  by (simp add: covered_def init_state_def)

lemma initial_sweep_run:
  assumes "initial_batches T B 1 = Some bs" and "initial_sweep env blk init_state bs = Inr s0"
  shows "consistent s0 \<and> covered s0 = {1 .. T}"
proof -
  have c: "concat bs = [1 .. T]" using assms(1) by (rule initial_batches_concat)
  have "distinct (concat bs)" and "set (concat bs) \<inter> covered init_state = {}"
    by (simp_all add: c covered_init)
  from initial_sweep_inv [OF consistent_init this assms(2)]
  show ?thesis by (simp add: c covered_init)
qed

text \<open>The state in which a completed run of \<open>snapshotNFTs\<close> ends.\<close>

lemma snapshotNFTs_final:
  assumes "snapshotNFTs env T B blk = Some (Inr res)"
  obtains bs s0 where "initial_batches T B 1 = Some bs"
    and "initial_sweep env blk init_state bs = Inr s0"
    and "res = generate_output T (recheck_upto env blk B 3 s0)"
    and "consistent (recheck_upto env blk B 3 s0)"
    and "covered (recheck_upto env blk B 3 s0) = {1 .. T}"
proof -
  from assms obtain bs where bs: "initial_batches T B 1 = Some bs"
    by (auto simp: snapshotNFTs_def split: option.splits)
  with assms obtain s0 where s0: "initial_sweep env blk init_state bs = Inr s0"
    and res: "res = generate_output T (recheck_upto env blk B 3 s0)"
    by (auto simp: snapshotNFTs_def split: sum.splits)
  have "consistent s0 \<and> covered s0 = {1 .. T}" using bs s0 by (rule initial_sweep_run)
  then have "shrinks s0 (recheck_upto env blk B 3 s0)" and "covered s0 = {1 .. T}"
    by (simp_all add: recheck_upto_shrinks)
  then have "consistent (recheck_upto env blk B 3 s0)"
    and "covered (recheck_upto env blk B 3 s0) = {1 .. T}"
    by (simp_all add: shrinks_def)
  with bs s0 res show ?thesis using that by blast
qed

lemma consistent_split:
  assumes "consistent st" and "covered st = {1 .. T}"
  shows "set (tokensToRecheck st) = {tokenId \<in> {1 .. T}. finalSnapshot st tokenId = None}"
    and "dom (finalSnapshot st) \<subseteq> {1 .. T}"
    and "0 \<le> T \<Longrightarrow> T - int (totalFound st) = int (length (tokensToRecheck st))"
proof -
  have disj: "dom (finalSnapshot st) \<inter> set (tokensToRecheck st) = {}"
    and un: "dom (finalSnapshot st) \<union> set (tokensToRecheck st) = {1 .. T}"
    and dist: "distinct (tokensToRecheck st)"
    and tf: "totalFound st = card (dom (finalSnapshot st))"
    using assms by (simp_all add: consistent_def covered_def)
  have mem: "x \<in> {1 .. T} \<longleftrightarrow> x \<in> dom (finalSnapshot st) \<or> x \<in> set (tokensToRecheck st)" for x
    using un by blast
  have excl: "\<not> (x \<in> dom (finalSnapshot st) \<and> x \<in> set (tokensToRecheck st))" for x
    using disj by blast
  show s: "set (tokensToRecheck st) = {tokenId \<in> {1 .. T}. finalSnapshot st tokenId = None}"
    using mem excl by (auto simp: domIff)
  show d: "dom (finalSnapshot st) \<subseteq> {1 .. T}" using un by blast
  show "T - int (totalFound st) = int (length (tokensToRecheck st))" if "0 \<le> T"
  proof -
    have "length (tokensToRecheck st) = card (set (tokensToRecheck st))"
      using dist by (simp add: distinct_card)
    also have "set (tokensToRecheck st) = {1 .. T} - dom (finalSnapshot st)"
      using disj un by blast
    also have "card ({1 .. T} - dom (finalSnapshot st)) = card {1 .. T} - card (dom (finalSnapshot st))"
      using d by (simp add: card_Diff_subset finite_subset)
    finally have "length (tokensToRecheck st) = nat T - totalFound st"
      using tf by simp
    moreover have "totalFound st \<le> nat T"
      using d tf card_mono [of "{1 .. T}" "dom (finalSnapshot st)"] by simp
    ultimately show ?thesis using that by simp
  qed
qed

lemma infinity_partition:
  assumes "snapshotNFTs env T B blk = Some (Inr res)"
  shows "(\<forall>tokenId \<in> {1 .. T}.
            case foundTokens res tokenId of
              Some r \<Rightarrow> owner r \<noteq> [] \<and> owner r \<noteq> ZeroAddress \<and> tokenId \<notin> set (missingTokens res)
            | None \<Rightarrow> tokenId \<in> set (missingTokens res)) \<and>
         (\<forall>tokenId r. foundTokens res tokenId = Some r \<longrightarrow>
            tokenId \<in> {1 .. T} \<and> owner r \<noteq> [] \<and> owner r \<noteq> ZeroAddress) \<and>
         found res = card (dom (foundTokens res)) \<and>
         (0 \<le> T \<longrightarrow> missing res = int (card {tokenId \<in> {1 .. T}. foundTokens res tokenId = None}))"
proof -
  from assms obtain bs s0 where "initial_batches T B 1 = Some bs"
    and res: "res = generate_output T (recheck_upto env blk B 3 s0)"
    and c: "consistent (recheck_upto env blk B 3 s0)"
    and cov: "covered (recheck_upto env blk B 3 s0) = {1 .. T}"
    by (rule snapshotNFTs_final)
  let ?st = "recheck_upto env blk B 3 s0"
  note sp = consistent_split [OF c cov]
  have valid: "owner r \<noteq> [] \<and> owner r \<noteq> ZeroAddress" if "finalSnapshot ?st tokenId = Some r" for tokenId r
    using c that by (auto simp: consistent_def)
  have dist: "distinct (tokensToRecheck ?st)" using c by (simp add: consistent_def)
  have p1: "\<forall>tokenId \<in> {1 .. T}.
            case finalSnapshot ?st tokenId of
              Some r \<Rightarrow> owner r \<noteq> [] \<and> owner r \<noteq> ZeroAddress \<and> tokenId \<notin> set (tokensToRecheck ?st)
            | None \<Rightarrow> tokenId \<in> set (tokensToRecheck ?st)"
    using sp(1) valid by (auto split: option.splits)
  have p2: "\<forall>tokenId r. finalSnapshot ?st tokenId = Some r \<longrightarrow>
            tokenId \<in> {1 .. T} \<and> owner r \<noteq> [] \<and> owner r \<noteq> ZeroAddress"
    using sp(2) valid by (auto simp: dom_def)
  have p3: "totalFound ?st = card (dom (finalSnapshot ?st))"
    using c by (simp add: consistent_def)
  have p4: "T - int (totalFound ?st) = int (card {tokenId \<in> {1 .. T}. finalSnapshot ?st tokenId = None})"
    if "0 \<le> T"
    using sp(3) [OF that] sp(1) dist distinct_card [of "tokensToRecheck ?st"] by simp
  have f: "foundTokens res = finalSnapshot ?st" "missingTokens res = tokensToRecheck ?st"
    "found res = totalFound ?st" "missing res = T - int (totalFound ?st)"
    by (simp_all add: res generate_output_def)
  show ?thesis
    unfolding f using p1 p2 p3 p4 by blast
qed



lemma recheck_batches_Nil: "recheck_batches B pass i [] = []"
  by (subst recheck_batches.simps) simp

lemma recheck_pass_empty: "tokensToRecheck st = [] \<Longrightarrow> recheck_pass env blk B pass st = st"
  by (simp add: recheck_pass_def recheck_batches_Nil)

lemma recheck_upto_pass:
  "recheck_upto env blk B (Suc p) st = recheck_pass env blk B (Suc p) (recheck_upto env blk B p st)"
  by (simp add: recheck_upto_Suc Let_def recheck_pass_empty)

lemma recheck_upto_consistent:
  "consistent st \<Longrightarrow> consistent (recheck_upto env blk B p st)"
  using recheck_upto_shrinks shrinks_consistent by blast

lemma recheck_upto_mono:
  assumes "consistent st" and "p \<le> q"
  shows "shrinks (recheck_upto env blk B p st) (recheck_upto env blk B q st)"
  using assms(2)
proof (induction q rule: dec_induct)
  case base
  show ?case using assms(1) by (simp add: shrinks_refl recheck_upto_consistent)
next
  case (step n)
  have "shrinks (recheck_upto env blk B n st) (recheck_upto env blk B (Suc n) st)"
    unfolding recheck_upto_pass
    using assms(1) by (intro recheck_pass_shrinks recheck_upto_consistent)
  with step.IH show ?case by (rule shrinks_trans)
qed

lemma shrinks_facts:
  assumes "consistent a" and "shrinks a b"
  shows "set (tokensToRecheck b) \<subseteq> set (tokensToRecheck a)"
    and "length (tokensToRecheck b) \<le> length (tokensToRecheck a)"
    and "tokenId \<in> set (tokensToRecheck a) \<and> tokenId \<notin> set (tokensToRecheck b) \<longleftrightarrow>
         tokenId \<in> dom (finalSnapshot b) \<and> tokenId \<notin> dom (finalSnapshot a)"
    and "finalSnapshot a \<subseteq>\<^sub>m finalSnapshot b"
proof -
  have cb: "consistent b" and cov: "covered b = covered a"
    and le: "finalSnapshot a \<subseteq>\<^sub>m finalSnapshot b"
    and sub: "set (tokensToRecheck b) \<subseteq> set (tokensToRecheck a)"
    using assms(2) by (simp_all add: shrinks_def)
  show "set (tokensToRecheck b) \<subseteq> set (tokensToRecheck a)" by (rule sub)
  show "finalSnapshot a \<subseteq>\<^sub>m finalSnapshot b" by (rule le)
  have "card (set (tokensToRecheck b)) \<le> card (set (tokensToRecheck a))"
    using sub by (simp add: card_mono)
  then show "length (tokensToRecheck b) \<le> length (tokensToRecheck a)"
    using assms(1) cb by (simp add: consistent_def distinct_card)
  have da: "\<not> (x \<in> dom (finalSnapshot a) \<and> x \<in> set (tokensToRecheck a))" for x
    using assms(1) unfolding consistent_def by blast
  have db: "\<not> (x \<in> dom (finalSnapshot b) \<and> x \<in> set (tokensToRecheck b))" for x
    using cb unfolding consistent_def by blast
  have same: "x \<in> dom (finalSnapshot b) \<or> x \<in> set (tokensToRecheck b) \<longleftrightarrow>
      x \<in> dom (finalSnapshot a) \<or> x \<in> set (tokensToRecheck a)" for x
    using cov unfolding covered_def by blast
  have doms: "dom (finalSnapshot a) \<subseteq> dom (finalSnapshot b)"
    using le by (rule map_le_implies_dom_le)
  show "tokenId \<in> set (tokensToRecheck a) \<and> tokenId \<notin> set (tokensToRecheck b) \<longleftrightarrow>
         tokenId \<in> dom (finalSnapshot b) \<and> tokenId \<notin> dom (finalSnapshot a)"
    using da [of tokenId] db [of tokenId] same [of tokenId] doms by blast
qed

lemma recheck_groups_prefix:
  assumes "consistent st" and "j \<le> k"
  shows "shrinks (foldl (recheck_group env blk pass) st (take j gs))
                 (foldl (recheck_group env blk pass) st (take k gs))"
proof -
  let ?sj = "foldl (recheck_group env blk pass) st (take j gs)"
  have "take k gs = take j gs @ drop j (take k gs)"
    using assms(2) by (metis append_take_drop_id min.absorb1 take_take)
  then have "foldl (recheck_group env blk pass) st (take k gs) =
      foldl (recheck_group env blk pass) ?sj (drop j (take k gs))"
    by (metis foldl_append)
  moreover have "consistent ?sj"
    using assms(1) recheck_groups_shrinks shrinks_consistent by blast
  ultimately show ?thesis by (simp add: recheck_groups_shrinks)
qed

lemma initial_sweep_append:
  "initial_sweep env blk st (xs @ ys) =
     (case initial_sweep env blk st xs of Inl e \<Rightarrow> Inl e | Inr st1 \<Rightarrow> initial_sweep env blk st1 ys)"
  by (induction xs arbitrary: st) (auto split: sum.splits)

lemma initial_sweep_prefix:
  assumes "distinct (concat bs)" and "j \<le> k"
    and "initial_sweep env blk init_state (take j bs) = Inr sj"
    and "initial_sweep env blk init_state (take k bs) = Inr sk"
  shows "finalSnapshot sj \<subseteq>\<^sub>m finalSnapshot sk"
proof -
  let ?rest = "drop j (take k bs)"
  have split: "take k bs = take j bs @ ?rest"
    using assms(2) by (metis append_take_drop_id min.absorb1 take_take)
  have "concat bs = concat (take k bs) @ concat (drop k bs)"
    by (metis append_take_drop_id concat_append)
  then have dk: "distinct (concat (take j bs) @ concat ?rest)"
    using assms(1) split by (metis concat_append distinct_append)
  have "consistent sj \<and> covered sj = covered init_state \<union> set (concat (take j bs)) \<and>
      finalSnapshot init_state \<subseteq>\<^sub>m finalSnapshot sj"
    using dk assms(3) by (intro initial_sweep_inv [OF consistent_init]) (auto simp: covered_init)
  then have cj: "consistent sj" and covj: "covered sj = set (concat (take j bs))"
    by (simp_all add: covered_init)
  have "initial_sweep env blk sj ?rest = Inr sk"
    using assms(3,4) split initial_sweep_append [of env blk init_state "take j bs" ?rest] by simp
  moreover have "distinct (concat ?rest)" and "set (concat ?rest) \<inter> covered sj = {}"
    using dk covj by auto
  ultimately show ?thesis
    using initial_sweep_inv [OF cj] by blast
qed

lemma finite_dom_consistent: "consistent st \<Longrightarrow> finite (dom (finalSnapshot st))"
  by (simp add: consistent_def)

lemma set_object_entries:
  "finite (dom obj) \<Longrightarrow> set (object_entries obj) = {(k, v). obj k = Some v}"
  by (auto simp: object_entries_def image_iff dom_def)

lemma csv_rows_set:
  assumes "finite (dom fs)"
  shows "set (csv_rows fs) =
    {\<lparr>TokenId = k, Owner = owner r, Chain = ''ethereum'', BlockNumber = block r\<rparr> | k r. fs k = Some r}"
  unfolding csv_rows_def using set_object_entries [OF assms] by (auto simp: image_iff)

section \<open>The multi-chain snapshotter: invariants\<close>


lemma find_owner_valid:
  "find_owner chs crs tokenId = Some r \<Longrightarrow> owner_p r \<noteq> [] \<and> owner_p r \<noteq> ZeroAddress"
proof (induction chs crs tokenId rule: find_owner.induct)
  case (4 chs chainName results chainResults tokenId)
  then show ?case
    by (auto split: option.splits dest!: found_owner_Some)
qed simp_all

lemma consistent_p_calls [simp]: "consistent_p (st\<lparr>calls_p := n\<rparr>) = consistent_p st"
  by (simp add: consistent_p_def)

lemma covered_p_calls [simp]: "covered_p (st\<lparr>calls_p := n\<rparr>) = covered_p st"
  by (simp add: covered_p_def)

lemma sweep_one_step:
  assumes "consistent_p st" and "tokenId \<notin> covered_p st"
  shows "consistent_p (sweep_one chs crs st tokenId)"
    and "covered_p (sweep_one chs crs st tokenId) = insert tokenId (covered_p st)"
    and "finalSnapshot_p st \<subseteq>\<^sub>m finalSnapshot_p (sweep_one chs crs st tokenId)"
proof -
  show "consistent_p (sweep_one chs crs st tokenId)"
    using assms unfolding sweep_one_def consistent_p_def covered_p_def
    by (auto simp: set_set_add distinct_set_add domIff dest!: find_owner_valid split: option.splits)
  show "covered_p (sweep_one chs crs st tokenId) = insert tokenId (covered_p st)"
    unfolding sweep_one_def covered_p_def
    by (auto simp: set_set_add split: option.splits)
  show "finalSnapshot_p st \<subseteq>\<^sub>m finalSnapshot_p (sweep_one chs crs st tokenId)"
    using assms unfolding sweep_one_def covered_p_def map_le_def
    by (auto simp: domIff split: option.splits)
qed

lemma sweep_tokens_Cons:
  "sweep_tokens chs crs st (tokenId # batch) = sweep_tokens chs crs (sweep_one chs crs st tokenId) batch"
  by (simp add: sweep_one_def)

lemma sweep_tokens_inv:
  assumes "consistent_p st" and "distinct batch" and "set batch \<inter> covered_p st = {}"
  shows "consistent_p (sweep_tokens chs crs st batch) \<and>
         covered_p (sweep_tokens chs crs st batch) = covered_p st \<union> set batch \<and>
         finalSnapshot_p st \<subseteq>\<^sub>m finalSnapshot_p (sweep_tokens chs crs st batch)"
  using assms
proof (induction batch arbitrary: st)
  case Nil
  then show ?case by simp
next
  case (Cons tokenId batch)
  let ?st1 = "sweep_one chs crs st tokenId"
  have notin: "tokenId \<notin> covered_p st" using Cons.prems by auto
  have c1: "consistent_p ?st1" and cov1: "covered_p ?st1 = insert tokenId (covered_p st)"
    and le1: "finalSnapshot_p st \<subseteq>\<^sub>m finalSnapshot_p ?st1"
    using sweep_one_step [OF Cons.prems(1) notin] by blast+
  have "distinct batch" and "set batch \<inter> covered_p ?st1 = {}"
    using Cons.prems cov1 by auto
  from Cons.IH [OF c1 this]
  show ?case
    unfolding sweep_tokens_Cons using le1 cov1 by (auto intro: map_le_trans)
qed

lemma panda_initial_sweep_inv:
  assumes "consistent_p st" and "distinct (concat bs)" and "set (concat bs) \<inter> covered_p st = {}"
    and "panda_initial_sweep elig envs chs st bs = Inr st'"
  shows "consistent_p st' \<and> covered_p st' = covered_p st \<union> set (concat bs) \<and>
         finalSnapshot_p st \<subseteq>\<^sub>m finalSnapshot_p st'"
  using assms
proof (induction bs arbitrary: st)
  case Nil
  then show ?case by simp
next
  case (Cons b bs)
  from Cons.prems(4) obtain crs n where
    rest: "panda_initial_sweep elig envs chs (sweep_tokens chs crs (st\<lparr>calls_p := n\<rparr>) b) bs = Inr st'"
    by (auto split: sum.splits)
  let ?st0 = "st\<lparr>calls_p := n\<rparr>"
  let ?st1 = "sweep_tokens chs crs ?st0 b"
  have "consistent_p ?st0" using Cons.prems(1) by simp
  moreover have "distinct b" using Cons.prems(2) by simp
  moreover have "set b \<inter> covered_p ?st0 = {}" using Cons.prems(3) by auto
  ultimately have step: "consistent_p ?st1 \<and> covered_p ?st1 = covered_p ?st0 \<union> set b \<and>
      finalSnapshot_p ?st0 \<subseteq>\<^sub>m finalSnapshot_p ?st1"
    by (rule sweep_tokens_inv)
  have "distinct (concat bs)" using Cons.prems(2) by simp
  moreover have "set (concat bs) \<inter> covered_p ?st1 = {}"
    using Cons.prems(2,3) step by auto
  ultimately have "consistent_p st' \<and> covered_p st' = covered_p ?st1 \<union> set (concat bs) \<and>
      finalSnapshot_p ?st1 \<subseteq>\<^sub>m finalSnapshot_p st'"
    using Cons.IH [of ?st1] step rest by blast
  moreover have "finalSnapshot_p st \<subseteq>\<^sub>m finalSnapshot_p ?st1" using step by simp
  ultimately show ?case using step by (auto intro: map_le_trans)
qed

lemma shrinks_p_refl: "consistent_p a \<Longrightarrow> shrinks_p a a"
  by (simp add: shrinks_p_def)

lemma shrinks_p_trans: "shrinks_p a b \<Longrightarrow> shrinks_p b c \<Longrightarrow> shrinks_p a c"
  unfolding shrinks_p_def by (auto intro: map_le_trans)

lemma shrinks_p_consistent: "shrinks_p a b \<Longrightarrow> consistent_p b"
  by (simp add: shrinks_p_def)

lemma shrinks_p_calls: "consistent_p a \<Longrightarrow> shrinks_p a (a\<lparr>calls_p := n\<rparr>)"
  by (simp add: shrinks_p_def covered_p_def)

lemma recheck_token_step:
  assumes "consistent_p st"
  shows "shrinks_p st (recheck_token chs crs st tokenId)"
proof -
  have "consistent_p (recheck_token chs crs st tokenId)"
    using assms unfolding recheck_token_def consistent_p_def
    by (auto simp: set_set_delete distinct_set_delete domIff
             dest!: find_owner_valid split: option.splits)
  moreover have "covered_p (recheck_token chs crs st tokenId) = covered_p st"
    unfolding recheck_token_def covered_p_def
    by (auto simp: set_set_delete split: option.splits)
  moreover have "finalSnapshot_p st \<subseteq>\<^sub>m finalSnapshot_p (recheck_token chs crs st tokenId)"
    using assms unfolding recheck_token_def consistent_p_def map_le_def
    by (auto simp: domIff split: option.splits)
  moreover have "set (tokensToRecheck_p (recheck_token chs crs st tokenId)) \<subseteq> set (tokensToRecheck_p st)"
    unfolding recheck_token_def
    by (auto simp: set_set_delete split: option.splits)
  ultimately show ?thesis by (simp add: shrinks_p_def)
qed

lemma recheck_tokens_Cons:
  "recheck_tokens chs crs st (tokenId # batch) =
     recheck_tokens chs crs (recheck_token chs crs st tokenId) batch"
  by (simp add: recheck_token_def)

lemma recheck_tokens_shrinks:
  "consistent_p st \<Longrightarrow> shrinks_p st (recheck_tokens chs crs st batch)"
proof (induction batch arbitrary: st)
  case Nil
  then show ?case by (simp add: shrinks_p_refl)
next
  case (Cons tokenId batch)
  have s1: "shrinks_p st (recheck_token chs crs st tokenId)"
    using Cons.prems by (rule recheck_token_step)
  then have "shrinks_p (recheck_token chs crs st tokenId)
      (recheck_tokens chs crs (recheck_token chs crs st tokenId) batch)"
    using Cons.IH shrinks_p_consistent by blast
  with s1 show ?case unfolding recheck_tokens_Cons by (rule shrinks_p_trans)
qed

lemma panda_recheck_group_shrinks:
  assumes "consistent_p st"
  shows "shrinks_p st (panda_recheck_group elig envs chs pass st batch)"
proof (cases "chain_rechecks elig envs pass (calls_p st) chs batch")
  case (Pair crs n)
  have c: "shrinks_p st (st\<lparr>calls_p := n\<rparr>)" using assms by (rule shrinks_p_calls)
  have "shrinks_p (st\<lparr>calls_p := n\<rparr>) (recheck_tokens chs crs (st\<lparr>calls_p := n\<rparr>) batch)"
    using assms by (simp add: recheck_tokens_shrinks)
  with c have "shrinks_p st (recheck_tokens chs crs (st\<lparr>calls_p := n\<rparr>) batch)"
    by (rule shrinks_p_trans)
  then show ?thesis using Pair by (simp add: panda_recheck_group_def)
qed

lemma panda_recheck_groups_shrinks:
  "consistent_p st \<Longrightarrow> shrinks_p st (foldl (panda_recheck_group elig envs chs pass) st gs)"
proof (induction gs arbitrary: st)
  case Nil
  then show ?case by (simp add: shrinks_p_refl)
next
  case (Cons g gs)
  have s1: "shrinks_p st (panda_recheck_group elig envs chs pass st g)"
    using Cons.prems by (rule panda_recheck_group_shrinks)
  then have "shrinks_p (panda_recheck_group elig envs chs pass st g)
      (foldl (panda_recheck_group elig envs chs pass) (panda_recheck_group elig envs chs pass st g) gs)"
    using Cons.IH shrinks_p_consistent by blast
  with s1 show ?case by (auto intro: shrinks_p_trans)
qed

lemma panda_recheck_pass_shrinks:
  "consistent_p st \<Longrightarrow> shrinks_p st (panda_recheck_pass elig envs chs B pass st)"
  unfolding panda_recheck_pass_def by (rule panda_recheck_groups_shrinks)

lemma panda_recheck_loop_shrinks:
  "consistent_p st \<Longrightarrow> shrinks_p st (panda_recheck_loop elig envs chs B lastPass pass st)"
proof (induction elig envs chs B lastPass pass st rule: panda_recheck_loop.induct)
  case (1 elig envs chs B lastPass pass st)
  show ?case
  proof (cases "pass \<le> lastPass \<and> length (tokensToRecheck_p st) \<noteq> 0")
    case True
    let ?st1 = "panda_recheck_pass elig envs chs B pass st"
    have s1: "shrinks_p st ?st1" using "1.prems" by (rule panda_recheck_pass_shrinks)
    then have "shrinks_p ?st1 (panda_recheck_loop elig envs chs B lastPass (Suc pass) ?st1)"
      using "1.IH" True shrinks_p_consistent by blast
    with s1 have "shrinks_p st (panda_recheck_loop elig envs chs B lastPass (Suc pass) ?st1)"
      by (rule shrinks_p_trans)
    moreover have "panda_recheck_loop elig envs chs B lastPass pass st =
        panda_recheck_loop elig envs chs B lastPass (Suc pass) ?st1"
      using True by (subst panda_recheck_loop.simps) simp
    ultimately show ?thesis by simp
  next
    case False
    then have "panda_recheck_loop elig envs chs B lastPass pass st = st"
      by (subst panda_recheck_loop.simps) auto
    then show ?thesis using "1.prems" by (simp add: shrinks_p_refl)
  qed
qed

lemma panda_recheck_upto_shrinks:
  "consistent_p st \<Longrightarrow> shrinks_p st (panda_recheck_upto elig envs chs B lastPass st)"
  by (simp add: panda_recheck_upto_def panda_recheck_loop_shrinks shrinks_p_refl)

lemma panda_recheck_loop_Suc:
  "pass \<le> Suc lastPass \<Longrightarrow>
   panda_recheck_loop elig envs chs B (Suc lastPass) pass st =
     (let s = panda_recheck_loop elig envs chs B lastPass pass st
      in if length (tokensToRecheck_p s) = 0 then s
         else panda_recheck_pass elig envs chs B (Suc lastPass) s)"
proof (induction elig envs chs B lastPass pass st rule: panda_recheck_loop.induct)
  case (1 elig envs chs B lastPass pass st)
  show ?case
  proof (cases "pass \<le> lastPass")
    case True
    show ?thesis
    proof (cases "length (tokensToRecheck_p st) = 0")
      case empty: True
      have "panda_recheck_loop elig envs chs B (Suc lastPass) pass st = st"
        using empty by (subst panda_recheck_loop.simps) simp
      moreover have "panda_recheck_loop elig envs chs B lastPass pass st = st"
        using empty by (subst panda_recheck_loop.simps) simp
      ultimately show ?thesis using empty by simp
    next
      case nonempty: False
      let ?st1 = "panda_recheck_pass elig envs chs B pass st"
      have l: "panda_recheck_loop elig envs chs B (Suc lastPass) pass st =
          panda_recheck_loop elig envs chs B (Suc lastPass) (Suc pass) ?st1"
        using nonempty True by (subst panda_recheck_loop.simps) simp
      have r: "panda_recheck_loop elig envs chs B lastPass pass st =
          panda_recheck_loop elig envs chs B lastPass (Suc pass) ?st1"
        using nonempty True by (subst panda_recheck_loop.simps) simp
      show ?thesis
        unfolding l r using "1.IH" [OF True nonempty] True by simp
    qed
  next
    case False
    with "1.prems" have eq: "pass = Suc lastPass" by simp
    have r: "panda_recheck_loop elig envs chs B lastPass pass st = st"
      using False by (subst panda_recheck_loop.simps) simp
    have beyond: "panda_recheck_loop elig envs chs B (Suc lastPass) (Suc pass) s = s" for s
      using eq by (subst panda_recheck_loop.simps) simp
    have "panda_recheck_loop elig envs chs B (Suc lastPass) pass st =
        (if length (tokensToRecheck_p st) = 0 then st
         else panda_recheck_loop elig envs chs B (Suc lastPass) (Suc pass)
                (panda_recheck_pass elig envs chs B pass st))"
      using eq by (subst panda_recheck_loop.simps) simp
    then have l: "panda_recheck_loop elig envs chs B (Suc lastPass) pass st =
        (if length (tokensToRecheck_p st) = 0 then st else panda_recheck_pass elig envs chs B pass st)"
      by (simp only: beyond)
    show ?thesis unfolding l r using eq by simp
  qed
qed

lemma panda_recheck_upto_0: "panda_recheck_upto elig envs chs B 0 st = st"
proof -
  have "panda_recheck_loop elig envs chs B 0 1 st = st"
    by (subst panda_recheck_loop.simps) simp
  then show ?thesis by (simp add: panda_recheck_upto_def)
qed

lemma panda_recheck_pass_empty:
  "tokensToRecheck_p st = [] \<Longrightarrow> panda_recheck_pass elig envs chs B pass st = st"
  by (simp add: panda_recheck_pass_def recheck_batches_Nil)

lemma panda_recheck_upto_pass:
  "panda_recheck_upto elig envs chs B (Suc p) st =
     panda_recheck_pass elig envs chs B (Suc p) (panda_recheck_upto elig envs chs B p st)"
proof (cases "length (tokensToRecheck_p st) > 0")
  case True
  then show ?thesis
    using panda_recheck_loop_Suc [of 1 p elig envs chs B st]
    by (simp add: panda_recheck_upto_def Let_def panda_recheck_pass_empty)
next
  case False
  then show ?thesis by (simp add: panda_recheck_upto_def panda_recheck_pass_empty)
qed

lemma panda_recheck_upto_consistent:
  "consistent_p st \<Longrightarrow> consistent_p (panda_recheck_upto elig envs chs B p st)"
  using panda_recheck_upto_shrinks shrinks_p_consistent by blast

lemma panda_recheck_upto_mono:
  assumes "consistent_p st" and "p \<le> q"
  shows "shrinks_p (panda_recheck_upto elig envs chs B p st) (panda_recheck_upto elig envs chs B q st)"
  using assms(2)
proof (induction q rule: dec_induct)
  case base
  show ?case using assms(1) by (simp add: shrinks_p_refl panda_recheck_upto_consistent)
next
  case (step n)
  have "shrinks_p (panda_recheck_upto elig envs chs B n st) (panda_recheck_upto elig envs chs B (Suc n) st)"
    unfolding panda_recheck_upto_pass
    using assms(1) by (intro panda_recheck_pass_shrinks panda_recheck_upto_consistent)
  with step.IH show ?case by (rule shrinks_p_trans)
qed

lemma shrinks_p_facts:
  assumes "consistent_p a" and "shrinks_p a b"
  shows "set (tokensToRecheck_p b) \<subseteq> set (tokensToRecheck_p a)"
    and "length (tokensToRecheck_p b) \<le> length (tokensToRecheck_p a)"
    and "tokenId \<in> set (tokensToRecheck_p a) \<and> tokenId \<notin> set (tokensToRecheck_p b) \<longleftrightarrow>
         tokenId \<in> dom (finalSnapshot_p b) \<and> tokenId \<notin> dom (finalSnapshot_p a)"
    and "finalSnapshot_p a \<subseteq>\<^sub>m finalSnapshot_p b"
proof -
  have cb: "consistent_p b" and cov: "covered_p b = covered_p a"
    and le: "finalSnapshot_p a \<subseteq>\<^sub>m finalSnapshot_p b"
    and sub: "set (tokensToRecheck_p b) \<subseteq> set (tokensToRecheck_p a)"
    using assms(2) by (simp_all add: shrinks_p_def)
  show "set (tokensToRecheck_p b) \<subseteq> set (tokensToRecheck_p a)" by (rule sub)
  show "finalSnapshot_p a \<subseteq>\<^sub>m finalSnapshot_p b" by (rule le)
  have "card (set (tokensToRecheck_p b)) \<le> card (set (tokensToRecheck_p a))"
    using sub by (simp add: card_mono)
  then show "length (tokensToRecheck_p b) \<le> length (tokensToRecheck_p a)"
    using assms(1) cb by (simp add: consistent_p_def distinct_card)
  have da: "\<not> (x \<in> dom (finalSnapshot_p a) \<and> x \<in> set (tokensToRecheck_p a))" for x
    using assms(1) unfolding consistent_p_def by blast
  have db: "\<not> (x \<in> dom (finalSnapshot_p b) \<and> x \<in> set (tokensToRecheck_p b))" for x
    using cb unfolding consistent_p_def by blast
  have same: "x \<in> dom (finalSnapshot_p b) \<or> x \<in> set (tokensToRecheck_p b) \<longleftrightarrow>
      x \<in> dom (finalSnapshot_p a) \<or> x \<in> set (tokensToRecheck_p a)" for x
    using cov unfolding covered_p_def by blast
  have doms: "dom (finalSnapshot_p a) \<subseteq> dom (finalSnapshot_p b)"
    using le by (rule map_le_implies_dom_le)
  show "tokenId \<in> set (tokensToRecheck_p a) \<and> tokenId \<notin> set (tokensToRecheck_p b) \<longleftrightarrow>
         tokenId \<in> dom (finalSnapshot_p b) \<and> tokenId \<notin> dom (finalSnapshot_p a)"
    using da [of tokenId] db [of tokenId] same [of tokenId] doms by blast
qed

lemma panda_recheck_groups_prefix:
  assumes "consistent_p st" and "j \<le> k"
  shows "shrinks_p (foldl (panda_recheck_group elig envs chs pass) st (take j gs))
                   (foldl (panda_recheck_group elig envs chs pass) st (take k gs))"
proof -
  let ?sj = "foldl (panda_recheck_group elig envs chs pass) st (take j gs)"
  have "take k gs = take j gs @ drop j (take k gs)"
    using assms(2) by (metis append_take_drop_id min.absorb1 take_take)
  then have "foldl (panda_recheck_group elig envs chs pass) st (take k gs) =
      foldl (panda_recheck_group elig envs chs pass) ?sj (drop j (take k gs))"
    by (metis foldl_append)
  moreover have "consistent_p ?sj"
    using assms(1) panda_recheck_groups_shrinks shrinks_p_consistent by blast
  ultimately show ?thesis by (simp add: panda_recheck_groups_shrinks)
qed

lemma consistent_p_init: "consistent_p init_state_p"
  by (simp add: consistent_p_def init_state_p_def)

lemma covered_p_init: "covered_p init_state_p = {}"
  by (simp add: covered_p_def init_state_p_def)

lemma panda_initial_sweep_append:
  "panda_initial_sweep elig envs chs st (xs @ ys) =
     (case panda_initial_sweep elig envs chs st xs of
        Inl e \<Rightarrow> Inl e
      | Inr st1 \<Rightarrow> panda_initial_sweep elig envs chs st1 ys)"
  by (induction xs arbitrary: st) (auto split: sum.splits)

lemma panda_initial_sweep_prefix:
  assumes "distinct (concat bs)" and "j \<le> k"
    and "panda_initial_sweep elig envs chs init_state_p (take j bs) = Inr sj"
    and "panda_initial_sweep elig envs chs init_state_p (take k bs) = Inr sk"
  shows "finalSnapshot_p sj \<subseteq>\<^sub>m finalSnapshot_p sk"
proof -
  let ?rest = "drop j (take k bs)"
  have split: "take k bs = take j bs @ ?rest"
    using assms(2) by (metis append_take_drop_id min.absorb1 take_take)
  have "concat bs = concat (take k bs) @ concat (drop k bs)"
    by (metis append_take_drop_id concat_append)
  then have dk: "distinct (concat (take j bs) @ concat ?rest)"
    using assms(1) split by (metis concat_append distinct_append)
  have "consistent_p sj \<and> covered_p sj = covered_p init_state_p \<union> set (concat (take j bs)) \<and>
      finalSnapshot_p init_state_p \<subseteq>\<^sub>m finalSnapshot_p sj"
    using dk assms(3) by (intro panda_initial_sweep_inv [OF consistent_p_init]) (auto simp: covered_p_init)
  then have cj: "consistent_p sj" and covj: "covered_p sj = set (concat (take j bs))"
    by (simp_all add: covered_p_init)
  have "panda_initial_sweep elig envs chs sj ?rest = Inr sk"
    using assms(3,4) split panda_initial_sweep_append [of elig envs chs init_state_p "take j bs" ?rest]
    by simp
  moreover have "distinct (concat ?rest)" and "set (concat ?rest) \<inter> covered_p sj = {}"
    using dk covj by auto
  ultimately show ?thesis
    using panda_initial_sweep_inv [OF cj] by blast
qed

lemma panda_initial_sweep_run:
  assumes "initial_batches T B 1 = Some bs"
    and "panda_initial_sweep elig envs chs init_state_p bs = Inr s0"
  shows "consistent_p s0 \<and> covered_p s0 = {1 .. T}"
proof -
  have c: "concat bs = [1 .. T]" using assms(1) by (rule initial_batches_concat)
  have "distinct (concat bs)" and "set (concat bs) \<inter> covered_p init_state_p = {}"
    by (simp_all add: c covered_p_init)
  from panda_initial_sweep_inv [OF consistent_p_init this assms(2)]
  show ?thesis by (simp add: c covered_p_init)
qed

lemma panda_snapshotNFTs_final:
  assumes "panda_snapshotNFTs elig envs chs T B = Some (Inr res)"
  obtains bs s0 where "initial_batches T B 1 = Some bs"
    and "panda_initial_sweep elig envs chs init_state_p bs = Inr s0"
    and "res = panda_generate_output T (panda_recheck_upto elig envs chs B 3 s0)"
    and "consistent_p (panda_recheck_upto elig envs chs B 3 s0)"
    and "covered_p (panda_recheck_upto elig envs chs B 3 s0) = {1 .. T}"
proof -
  from assms obtain bs where bs: "initial_batches T B 1 = Some bs"
    by (auto simp: panda_snapshotNFTs_def split: option.splits)
  with assms obtain s0 where s0: "panda_initial_sweep elig envs chs init_state_p bs = Inr s0"
    and res: "res = panda_generate_output T (panda_recheck_upto elig envs chs B 3 s0)"
    by (auto simp: panda_snapshotNFTs_def split: sum.splits)
  have "consistent_p s0 \<and> covered_p s0 = {1 .. T}" using bs s0 by (rule panda_initial_sweep_run)
  then have "shrinks_p s0 (panda_recheck_upto elig envs chs B 3 s0)" and "covered_p s0 = {1 .. T}"
    by (simp_all add: panda_recheck_upto_shrinks)
  then have "consistent_p (panda_recheck_upto elig envs chs B 3 s0)"
    and "covered_p (panda_recheck_upto elig envs chs B 3 s0) = {1 .. T}"
    by (simp_all add: shrinks_p_def)
  with bs s0 res show ?thesis using that by blast
qed



lemma consistent_p_split:
  assumes "consistent_p st" and "covered_p st = {1 .. T}"
  shows "set (tokensToRecheck_p st) = {tokenId \<in> {1 .. T}. finalSnapshot_p st tokenId = None}"
    and "dom (finalSnapshot_p st) \<subseteq> {1 .. T}"
    and "0 \<le> T \<Longrightarrow>
         T - int (card (dom (finalSnapshot_p st))) = int (length (tokensToRecheck_p st))"
proof -
  have disj: "dom (finalSnapshot_p st) \<inter> set (tokensToRecheck_p st) = {}"
    and un: "dom (finalSnapshot_p st) \<union> set (tokensToRecheck_p st) = {1 .. T}"
    and dist: "distinct (tokensToRecheck_p st)"
    using assms by (simp_all add: consistent_p_def covered_p_def)
  have mem: "x \<in> {1 .. T} \<longleftrightarrow> x \<in> dom (finalSnapshot_p st) \<or> x \<in> set (tokensToRecheck_p st)" for x
    using un by blast
  have excl: "\<not> (x \<in> dom (finalSnapshot_p st) \<and> x \<in> set (tokensToRecheck_p st))" for x
    using disj by blast
  show s: "set (tokensToRecheck_p st) = {tokenId \<in> {1 .. T}. finalSnapshot_p st tokenId = None}"
    using mem excl by (auto simp: domIff)
  show d: "dom (finalSnapshot_p st) \<subseteq> {1 .. T}" using un by blast
  show "T - int (card (dom (finalSnapshot_p st))) = int (length (tokensToRecheck_p st))" if "0 \<le> T"
  proof -
    have "length (tokensToRecheck_p st) = card (set (tokensToRecheck_p st))"
      using dist by (simp add: distinct_card)
    also have "set (tokensToRecheck_p st) = {1 .. T} - dom (finalSnapshot_p st)"
      using disj un by blast
    also have "card ({1 .. T} - dom (finalSnapshot_p st)) =
        card {1 .. T} - card (dom (finalSnapshot_p st))"
      using d by (simp add: card_Diff_subset finite_subset)
    finally have "length (tokensToRecheck_p st) = nat T - card (dom (finalSnapshot_p st))"
      by simp
    moreover have "card (dom (finalSnapshot_p st)) \<le> nat T"
      using d card_mono [of "{1 .. T}" "dom (finalSnapshot_p st)"] by simp
    ultimately show ?thesis using that by simp
  qed
qed

lemma panda_partition:
  assumes "panda_snapshotNFTs elig envs chs T B = Some (Inr res)"
  shows "(\<forall>tokenId \<in> {1 .. T}.
            case snapshot_p res tokenId of
              Some r \<Rightarrow> owner_p r \<noteq> [] \<and> owner_p r \<noteq> ZeroAddress \<and> tokenId \<notin> set (unresolved_p res)
            | None \<Rightarrow> tokenId \<in> set (unresolved_p res)) \<and>
         (\<forall>tokenId r. snapshot_p res tokenId = Some r \<longrightarrow>
            tokenId \<in> {1 .. T} \<and> owner_p r \<noteq> [] \<and> owner_p r \<noteq> ZeroAddress) \<and>
         found_p res = card (dom (snapshot_p res)) \<and>
         (0 \<le> T \<longrightarrow> missing_p res = int (card {tokenId \<in> {1 .. T}. snapshot_p res tokenId = None}))"
proof -
  from assms obtain bs s0 where "initial_batches T B 1 = Some bs"
    and res: "res = panda_generate_output T (panda_recheck_upto elig envs chs B 3 s0)"
    and c: "consistent_p (panda_recheck_upto elig envs chs B 3 s0)"
    and cov: "covered_p (panda_recheck_upto elig envs chs B 3 s0) = {1 .. T}"
    by (rule panda_snapshotNFTs_final)
  let ?st = "panda_recheck_upto elig envs chs B 3 s0"
  note sp = consistent_p_split [OF c cov]
  have valid: "owner_p r \<noteq> [] \<and> owner_p r \<noteq> ZeroAddress"
    if "finalSnapshot_p ?st tokenId = Some r" for tokenId r
    using c that by (auto simp: consistent_p_def)
  have dist: "distinct (tokensToRecheck_p ?st)" using c by (simp add: consistent_p_def)
  have p1: "\<forall>tokenId \<in> {1 .. T}.
            case finalSnapshot_p ?st tokenId of
              Some r \<Rightarrow> owner_p r \<noteq> [] \<and> owner_p r \<noteq> ZeroAddress \<and> tokenId \<notin> set (tokensToRecheck_p ?st)
            | None \<Rightarrow> tokenId \<in> set (tokensToRecheck_p ?st)"
    using sp(1) valid by (auto split: option.splits)
  have p2: "\<forall>tokenId r. finalSnapshot_p ?st tokenId = Some r \<longrightarrow>
            tokenId \<in> {1 .. T} \<and> owner_p r \<noteq> [] \<and> owner_p r \<noteq> ZeroAddress"
    using sp(2) valid by (auto simp: dom_def)
  have p4: "T - int (card (dom (finalSnapshot_p ?st))) =
      int (card {tokenId \<in> {1 .. T}. finalSnapshot_p ?st tokenId = None})"
    if "0 \<le> T"
    using sp(3) [OF that] sp(1) dist distinct_card [of "tokensToRecheck_p ?st"] by simp
  have f: "snapshot_p res = finalSnapshot_p ?st" "unresolved_p res = tokensToRecheck_p ?st"
    "found_p res = card (dom (finalSnapshot_p ?st))"
    "missing_p res = T - int (card (dom (finalSnapshot_p ?st)))"
    by (simp_all add: res panda_generate_output_def)
  show ?thesis
    unfolding f using p1 p2 p4 by blast
qed

section \<open>The dispatcher and the wallet summary: lemmas\<close>










lemma count_wallet_sum:
  "sum_list (map snd (count_wallet wc ow)) = sum_list (map snd wc) + 1"
  unfolding count_wallet_def by (induction wc) auto

lemma count_wallet_length: "length (count_wallet wc ow) \<le> Suc (length wc)"
  unfolding count_wallet_def by (induction wc) auto

lemma count_wallet_distinct: "distinct (map fst wc) \<Longrightarrow> distinct (map fst (count_wallet wc ow))"
  by (simp add: count_wallet_def distinct_update)

lemma count_wallet_foldl:
  "sum_list (map snd (foldl count_wallet wc ows)) = sum_list (map snd wc) + length ows \<and>
   length (foldl count_wallet wc ows) \<le> length wc + length ows \<and>
   (distinct (map fst wc) \<longrightarrow> distinct (map fst (foldl count_wallet wc ows)))"
proof (induction ows arbitrary: wc)
  case Nil
  then show ?case by simp
next
  case (Cons ow ows)
  from Cons.IH [of "count_wallet wc ow"]
  show ?case
    using count_wallet_length [of wc ow]
    by (auto simp: count_wallet_sum count_wallet_distinct)
qed

lemma length_object_entries: "length (object_entries obj) = card (dom obj)"
  by (simp add: object_entries_def)

lemma generateWalletSummary_total:
  "sum_list (map snd (generateWalletSummary tokens)) = card (dom tokens) \<and>
   length (generateWalletSummary tokens) \<le> card (dom tokens) \<and>
   distinct (map fst (generateWalletSummary tokens))"
  using count_wallet_foldl [of "[]" "map (\<lambda>(tokenId, r). owner_p r) (object_entries tokens)"]
  by (simp add: generateWalletSummary_def length_object_entries)

section \<open>The Solana fetcher: lemmas\<close>


lemma waitForSlot_free:
  "activeRequests st < maxConcurrent st \<Longrightarrow>
   waitForSlot st = Some (st\<lparr>activeRequests := activeRequests st + 1, trace := trace st @ [Acquire]\<rparr>)"
  by (subst waitForSlot.simps) simp

lemma waitForSlot_Some:
  assumes "waitForSlot st = Some st1"
  shows "activeRequests st < maxConcurrent st \<and>
         st1 = st\<lparr>activeRequests := activeRequests st + 1, trace := trace st @ [Acquire]\<rparr>"
proof (rule waitForSlot.raw_induct [where P = "\<lambda>st st1. activeRequests st < maxConcurrent st \<and>
         st1 = st\<lparr>activeRequests := activeRequests st + 1, trace := trace st @ [Acquire]\<rparr>", OF _ assms])
  fix f :: "fetcher \<Rightarrow> fetcher option" and st st1
  assume ih: "\<And>st st1. f st = Some st1 \<Longrightarrow> activeRequests st < maxConcurrent st \<and>
         st1 = st\<lparr>activeRequests := activeRequests st + 1, trace := trace st @ [Acquire]\<rparr>"
    and eq: "(if maxConcurrent st \<le> activeRequests st then f (sleep 100 st)
              else Some (st\<lparr>activeRequests := activeRequests st + 1, trace := trace st @ [Acquire]\<rparr>)) = Some st1"
  show "activeRequests st < maxConcurrent st \<and>
         st1 = st\<lparr>activeRequests := activeRequests st + 1, trace := trace st @ [Acquire]\<rparr>"
  proof (cases "maxConcurrent st \<le> activeRequests st")
    case True
    with eq have "f (sleep 100 st) = Some st1" by simp
    then have "activeRequests (sleep 100 st) < maxConcurrent (sleep 100 st)" using ih by blast
    with True show ?thesis by (simp add: sleep_def)
  next
    case False
    with eq show ?thesis by auto
  qed
qed


lemma try_attempt_effect:
  assumes "try_attempt env m attempt st = (out, st')"
  shows "\<exists>evs. trace st' = trace st @ evs \<and> balanced True evs \<and> Acquire \<notin> set evs \<and>
           Release \<in> set evs \<and> 1 \<le> slot_count evs \<and> slot_count evs \<le> 2 \<and>
           (\<forall>ow. out = Returned ow \<longrightarrow> slot_count evs = 2)"
    and "activeRequests st' = activeRequests st - 1"
    and "maxConcurrent st' = maxConcurrent st"
proof -
  show "activeRequests st' = activeRequests st - 1"
    using assms
    by (auto simp: try_attempt_def owner_lookup_def on_error_def post_largest_def post_info_def
          sleep_def releaseSlot_def Let_def
        split: http.splits option.splits largest_accounts.splits list.splits account_data.splits
          if_splits)
  show "maxConcurrent st' = maxConcurrent st"
    using assms
    by (auto simp: try_attempt_def owner_lookup_def on_error_def post_largest_def post_info_def
          sleep_def releaseSlot_def Let_def
        split: http.splits option.splits largest_accounts.splits list.splits account_data.splits
          if_splits)
  let ?evs = "drop (length (trace st)) (trace st')"
  have "trace st' = trace st @ ?evs \<and> balanced True ?evs \<and> Acquire \<notin> set ?evs \<and>
           Release \<in> set ?evs \<and> 1 \<le> slot_count ?evs \<and> slot_count ?evs \<le> 2 \<and>
           (\<forall>ow. out = Returned ow \<longrightarrow> slot_count ?evs = 2)"
    using assms
    by (auto simp: try_attempt_def owner_lookup_def on_error_def post_largest_def post_info_def
          sleep_def releaseSlot_def Let_def slot_count_def
        split: http.splits option.splits largest_accounts.splits list.splits account_data.splits
          if_splits)
  then show "\<exists>evs. trace st' = trace st @ evs \<and> balanced True evs \<and> Acquire \<notin> set evs \<and>
           Release \<in> set evs \<and> 1 \<le> slot_count evs \<and> slot_count evs \<le> 2 \<and>
           (\<forall>ow. out = Returned ow \<longrightarrow> slot_count evs = 2)"
    by blast
qed



lemma balanced_append: "balanced h xs \<Longrightarrow> balanced False ys \<Longrightarrow> balanced h (xs @ ys)"
  by (induction h xs rule: balanced.induct) auto


lemma slot_posts_no_acquire: "Acquire \<notin> set xs \<Longrightarrow> slot_posts (xs @ ys) = slot_posts ys"
proof (induction xs)
  case Nil
  then show ?case by simp
next
  case (Cons e xs)
  then show ?case by (cases e) auto
qed

lemma slot_posts_attempt:
  assumes "Acquire \<notin> set xs" and "Release \<in> set xs"
  shows "slot_posts (Acquire # xs @ ys) = slot_count xs # slot_posts ys"
proof -
  have "takeWhile (\<lambda>e. e \<noteq> Release) (xs @ ys) = takeWhile (\<lambda>e. e \<noteq> Release) xs"
    using assms(2) by (simp add: takeWhile_append1)
  then show ?thesis
    using assms(1) by (simp add: slot_count_def slot_posts_no_acquire)
qed

lemma length_slot_posts: "length (slot_posts evs) = count_list evs Acquire"
proof (induction evs)
  case Nil
  then show ?case by simp
next
  case (Cons e evs)
  then show ?case by (cases e) auto
qed

lemma retry_loop_unfold:
  "retry_loop env m attempt st =
     (if attempt < maxRetries then
        (case waitForSlot st of
           None \<Rightarrow> None
         | Some st1 \<Rightarrow>
             (case try_attempt env m attempt st1 of
                (Returned ow, st2) \<Rightarrow> Some (ow, st2)
              | (Continue, st2) \<Rightarrow> retry_loop env m (Suc attempt) st2))
      else Some (None, st))"
  by (rule retry_loop.simps)

lemma retry_loop_effect:
  "retry_loop env m attempt st = Some (r, st') \<Longrightarrow>
   activeRequests st' = activeRequests st \<and> maxConcurrent st' = maxConcurrent st \<and>
   (\<exists>evs. trace st' = trace st @ evs \<and> balanced False evs \<and>
      (\<forall>k \<in> set (slot_posts evs). 1 \<le> k \<and> k \<le> 2) \<and>
      length (slot_posts evs) \<le> maxRetries - attempt \<and>
      (\<forall>ow. r = Some ow \<longrightarrow> slot_posts evs \<noteq> [] \<and> last (slot_posts evs) = 2))"
proof (induction env m attempt st arbitrary: r st' rule: retry_loop.induct)
  case (1 env m attempt st)
  show ?case
  proof (cases "attempt < maxRetries")
    case False
    with "1.prems" have "r = None" and "st' = st"
      by (simp_all add: retry_loop_unfold [of env m attempt st])
    then show ?thesis by simp
  next
    case True
    with "1.prems" obtain st1 where w: "waitForSlot st = Some st1"
      by (auto simp: retry_loop_unfold [of env m attempt st] split: option.splits)
    then have st1: "st1 = st\<lparr>activeRequests := activeRequests st + 1, trace := trace st @ [Acquire]\<rparr>"
      using waitForSlot_Some by blast
    obtain out st2 where t: "try_attempt env m attempt st1 = (out, st2)"
      by (cases "try_attempt env m attempt st1")
    from try_attempt_effect [OF t] obtain evs1 where
      tr: "trace st2 = trace st1 @ evs1" and bal: "balanced True evs1"
      and noacq: "Acquire \<notin> set evs1" and rel: "Release \<in> set evs1"
      and cnt: "1 \<le> slot_count evs1" "slot_count evs1 \<le> 2"
      and ret: "\<forall>ow. out = Returned ow \<longrightarrow> slot_count evs1 = 2"
      and act: "activeRequests st2 = activeRequests st1 - 1"
      and mx: "maxConcurrent st2 = maxConcurrent st1"
      by blast
    have act2: "activeRequests st2 = activeRequests st" and mx2: "maxConcurrent st2 = maxConcurrent st"
      using act mx st1 by simp_all
    have tr2: "trace st2 = trace st @ Acquire # evs1" using tr st1 by simp
    show ?thesis
    proof (cases out)
      case (Returned ow)
      with "1.prems" True w t have r: "r = ow" and st': "st' = st2"
        by (simp_all add: retry_loop_unfold [of env m attempt st])
      have sp: "slot_posts (Acquire # evs1) = [slot_count evs1]"
        using slot_posts_attempt [OF noacq rel, of "[]"] by simp
      have "trace st' = trace st @ Acquire # evs1 \<and> balanced False (Acquire # evs1) \<and>
        (\<forall>k \<in> set (slot_posts (Acquire # evs1)). 1 \<le> k \<and> k \<le> 2) \<and>
        length (slot_posts (Acquire # evs1)) \<le> maxRetries - attempt \<and>
        (\<forall>ow. r = Some ow \<longrightarrow> slot_posts (Acquire # evs1) \<noteq> [] \<and> last (slot_posts (Acquire # evs1)) = 2)"
        unfolding sp using tr2 st' bal cnt ret Returned True by simp
      then show ?thesis using act2 mx2 st' by blast
    next
      case Continue
      with "1.prems" True w t have rec: "retry_loop env m (Suc attempt) st2 = Some (r, st')"
        by (simp add: retry_loop_unfold [of env m attempt st])
      from "1.IH" [OF True w t [symmetric] Continue rec] obtain evs2 where
        a': "activeRequests st' = activeRequests st2" and m': "maxConcurrent st' = maxConcurrent st2"
        and tr': "trace st' = trace st2 @ evs2" and bal2: "balanced False evs2"
        and cnt2: "\<forall>k \<in> set (slot_posts evs2). 1 \<le> k \<and> k \<le> 2"
        and len2: "length (slot_posts evs2) \<le> maxRetries - Suc attempt"
        and last2: "\<forall>ow. r = Some ow \<longrightarrow> slot_posts evs2 \<noteq> [] \<and> last (slot_posts evs2) = 2"
        by blast
      let ?evs = "Acquire # evs1 @ evs2"
      have sp: "slot_posts ?evs = slot_count evs1 # slot_posts evs2"
        using noacq rel by (rule slot_posts_attempt)
      have "trace st' = trace st @ ?evs" using tr' tr2 by simp
      moreover have "balanced False ?evs"
        using balanced_append [OF bal bal2] by simp
      moreover have "\<forall>k \<in> set (slot_posts ?evs). 1 \<le> k \<and> k \<le> 2"
        unfolding sp using cnt cnt2 by simp
      moreover have "length (slot_posts ?evs) \<le> maxRetries - attempt"
        unfolding sp using len2 True by simp
      moreover have "\<forall>ow. r = Some ow \<longrightarrow> slot_posts ?evs \<noteq> [] \<and> last (slot_posts ?evs) = 2"
        unfolding sp using last2 by simp
      ultimately show ?thesis using a' m' act2 mx2 by (intro conjI exI [of _ ?evs]) simp_all
    qed
  qed
qed






lemma dropWhile_all: "(\<forall>x \<in> set (dropWhile P xs). P x) \<longleftrightarrow> (\<forall>x \<in> set xs. P x)"
proof
  assume a: "\<forall>x \<in> set (dropWhile P xs). P x"
  have "dropWhile P xs = []"
  proof (rule ccontr)
    assume ne: "dropWhile P xs \<noteq> []"
    then have "\<not> P (hd (dropWhile P xs))" by (rule hd_dropWhile)
    moreover have "hd (dropWhile P xs) \<in> set (dropWhile P xs)" using ne by (rule hd_in_set)
    ultimately show False using a by blast
  qed
  then show "\<forall>x \<in> set xs. P x" by (simp add: dropWhile_eq_Nil_conv)
next
  assume "\<forall>x \<in> set xs. P x"
  then show "\<forall>x \<in> set (dropWhile P xs). P x" using set_dropWhileD by fast
qed

lemma js_trim_empty: "js_trim s = [] \<longleftrightarrow> (\<forall>c \<in> set s. is_space c)"
  by (simp add: js_trim_def dropWhile_eq_Nil_conv dropWhile_all)

lemma is_blank_iff:
  "is_blank mintAddress \<longleftrightarrow> (\<forall>m. mintAddress = Some m \<longrightarrow> (\<forall>c \<in> set m. is_space c))"
  by (cases mintAddress) (auto simp: is_blank_def js_trim_empty)

lemma valid_row_iff: "valid_row row \<longleftrightarrow> \<not> is_blank (SolanaTokenId row)"
  by (simp add: valid_row_def is_blank_def split: option.splits)

lemma not_blank_mints: "\<not> is_blank (Some mintA)" "\<not> is_blank (Some mintB)"
  by (simp_all add: is_blank_iff mintA_def mintB_def is_space_def)

lemma mints_differ: "mintB \<noteq> mintA" "mintA \<noteq> []" "mintB \<noteq> []"
  by (simp_all add: mintA_def mintB_def)

lemma blank_cells: "is_blank None" "is_blank (Some [])" "is_blank (Some [0x00A0])"
  "is_blank (Some [0x00A0, 0x2003])" "is_blank (Some [0x0020, 0x0009, 0xFEFF, 0x2028, 0x3000])"
  by (simp_all add: is_blank_iff is_space_def)

lemmas solana_defs = getNFTOwner_def not_blank_mints mints_differ retry_loop.simps
  maxRetries_def retryDelay_def try_attempt_def owner_lookup_def on_error_def post_largest_def
  post_info_def sleep_def releaseSlot_def is_active_def waitForSlot_free idle_fetcher_def

lemma example_fetch_ok:
  "getNFTOwner helius_ok (Some mintA) idle_fetcher =
     Some (Some ''wallet1'',
       \<lparr>maxConcurrent = 30, activeRequests = 0, posts = 2,
        trace = [Acquire, PostLargestAccounts mintA, Sleep 200, PostAccountInfo ''acct1'',
                 Release]\<rparr>)"
  by (simp add: solana_defs helius_ok_def)

lemma example_fetch_flaky:
  "getNFTOwner helius_flaky (Some mintA) idle_fetcher =
     Some (Some ''wallet1'',
       \<lparr>maxConcurrent = 30, activeRequests = 0, posts = 3,
        trace = [Acquire, PostLargestAccounts mintA, Release, Sleep 4000,
                 Acquire, Sleep 2000, PostLargestAccounts mintA, Sleep 200,
                 PostAccountInfo ''acct1'', Release]\<rparr>)"
  by (simp add: solana_defs helius_flaky_def)

lemma example_fetch_down:
  "getNFTOwner helius_down (Some mintA) idle_fetcher =
     Some (None,
       \<lparr>maxConcurrent = 30, activeRequests = 0, posts = 5,
        trace = [Acquire, PostLargestAccounts mintA, Release, Sleep 4000,
                 Acquire, Sleep 2000, PostLargestAccounts mintA, Release, Sleep 6000,
                 Acquire, Sleep 4000, PostLargestAccounts mintA, Release, Sleep 8000,
                 Acquire, Sleep 6000, PostLargestAccounts mintA, Release, Sleep 10000,
                 Acquire, Sleep 8000, PostLargestAccounts mintA, Release]\<rparr>)"
  by (simp add: solana_defs helius_down_def)



lemma getNFTOwner_effect:
  assumes "getNFTOwner env mintAddress st = Some (r, st')"
  shows "activeRequests st' = activeRequests st \<and> maxConcurrent st' = maxConcurrent st \<and>
   (\<exists>evs. trace st' = trace st @ evs \<and> balanced False evs \<and>
      (\<forall>k \<in> set (slot_posts evs). 1 \<le> k \<and> k \<le> 2) \<and>
      length (slot_posts evs) \<le> maxRetries \<and>
      (\<forall>ow. r = Some ow \<longrightarrow> slot_posts evs \<noteq> [] \<and> last (slot_posts evs) = 2))"
proof (cases "is_blank mintAddress")
  case True
  with assms have "r = None" and "st' = st" by (simp_all add: getNFTOwner_def)
  then show ?thesis by simp
next
  case False
  with assms have "retry_loop env (case mintAddress of Some m \<Rightarrow> m | None \<Rightarrow> []) 0 st = Some (r, st')"
    by (simp add: getNFTOwner_def)
  from retry_loop_effect [OF this] show ?thesis by simp
qed



lemma try_attempt_throws:
  assumes "\<forall>n. \<exists>status. largestAccounts env n m = Throws status"
  shows "fst (try_attempt env m attempt st) = Continue"
proof -
  let ?st = "if attempt > 0 then sleep (retryDelay * int attempt) st else st"
  obtain status where "largestAccounts env (posts ?st) m = Throws status"
    using assms by blast
  then show ?thesis
    by (simp add: try_attempt_def post_largest_def on_error_def Let_def)
qed

lemma retry_loop_all_throw:
  "\<forall>n. \<exists>status. largestAccounts env n m = Throws status \<Longrightarrow>
   activeRequests st < maxConcurrent st \<Longrightarrow>
   \<exists>st'. retry_loop env m attempt st = Some (None, st') \<and>
     count_list (trace st') Acquire = count_list (trace st) Acquire + (maxRetries - attempt)"
proof (induction env m attempt st rule: retry_loop.induct)
  case (1 env m attempt st)
  show ?case
  proof (cases "attempt < maxRetries")
    case False
    then show ?thesis by (simp add: retry_loop_unfold [of env m attempt st])
  next
    case True
    let ?st1 = "st\<lparr>activeRequests := activeRequests st + 1, trace := trace st @ [Acquire]\<rparr>"
    have w: "waitForSlot st = Some ?st1" using "1.prems"(2) by (rule waitForSlot_free)
    obtain out st2 where t: "try_attempt env m attempt ?st1 = (out, st2)"
      by (cases "try_attempt env m attempt ?st1")
    have out: "out = Continue"
      using try_attempt_throws [OF "1.prems"(1), of attempt ?st1] t by simp
    have free: "activeRequests st2 < maxConcurrent st2"
      using try_attempt_effect(2,3) [OF t] "1.prems"(2) by simp
    from try_attempt_effect(1) [OF t] obtain evs where
      tr: "trace st2 = trace ?st1 @ evs" and noacq: "Acquire \<notin> set evs"
      by blast
    have cnt: "count_list (trace st2) Acquire = count_list (trace st) Acquire + 1"
      using tr noacq by (simp add: count_notin)
    from "1.IH" [OF True w t [symmetric] out "1.prems"(1) free] obtain st' where
      rl: "retry_loop env m (Suc attempt) st2 = Some (None, st')"
      and c: "count_list (trace st') Acquire =
              count_list (trace st2) Acquire + (maxRetries - Suc attempt)"
      by blast
    have "retry_loop env m attempt st = Some (None, st')"
      using True w t out rl by (simp add: retry_loop_unfold [of env m attempt st])
    moreover have "count_list (trace st') Acquire =
        count_list (trace st) Acquire + (maxRetries - attempt)"
      using c cnt True by simp
    ultimately show ?thesis by blast
  qed
qed

lemma getNFTOwner_all_throw:
  assumes "\<not> is_blank (Some m)" and "\<forall>n. \<exists>status. largestAccounts env n m = Throws status"
    and "activeRequests st < maxConcurrent st"
  shows "\<exists>st'. getNFTOwner env (Some m) st = Some (None, st') \<and>
           count_list (trace st') Acquire = count_list (trace st) Acquire + 5"
  using retry_loop_all_throw [OF assms(2,3), of 0] assms(1)
  by (simp add: getNFTOwner_def maxRetries_def)





lemma example_fetch_partial:
  "getNFTOwner helius_partial (Some mintA) idle_fetcher =
     Some (Some ''wallet1'',
       \<lparr>maxConcurrent = 30, activeRequests = 0, posts = 2,
        trace = [Acquire, PostLargestAccounts mintA, Sleep 200, PostAccountInfo ''acct1'',
                 Release]\<rparr>)"
  by (simp add: solana_defs helius_partial_def)

lemma example_fetch_unknown:
  assumes "activeRequests st < maxConcurrent st"
  shows "\<exists>st'. getNFTOwner helius_partial (Some mintB) st = Some (None, st')"
proof -
  have "\<forall>n. \<exists>status. largestAccounts helius_partial n mintB = Throws status"
    by (simp add: helius_partial_def mints_differ)
  from getNFTOwner_all_throw [OF not_blank_mints(2) this assms] show ?thesis by blast
qed

lemma process_batch_ids:
  "process_batch env st batch = Some (rows, st') \<Longrightarrow> map SolanaTokenId rows = map SolanaTokenId batch"
proof (induction batch arbitrary: st rows st')
  case Nil
  then show ?case by simp
next
  case (Cons row batch)
  show ?case
  proof (cases "SolanaTokenId row = None \<or> SolanaTokenId row = Some []")
    case True
    with Cons.prems obtain rows' where "process_batch env st batch = Some (rows', st')"
      and "rows = row # rows'"
      by (auto split: option.splits)
    with Cons.IH show ?thesis by simp
  next
    case False
    with Cons.prems obtain ow st1 rows' where "process_batch env st1 batch = Some (rows', st')"
      and "rows = row\<lparr>OwnerWallet := ow\<rparr> # rows'"
      by (auto split: option.splits)
    with Cons.IH show ?thesis by simp
  qed
qed

lemma process_from_ids:
  assumes "process_from env B startIdx st validData = Some (rows, st')"
  shows "map SolanaTokenId rows = map SolanaTokenId validData"
proof -
  have "map SolanaTokenId (fst (rows, st')) = map SolanaTokenId validData"
  proof (rule process_from.raw_induct
      [where P = "\<lambda>env B startIdx st validData res.
         map SolanaTokenId (fst res) = map SolanaTokenId validData", OF _ assms])
    fix f :: "helius_env \<Rightarrow> nat \<Rightarrow> nat \<Rightarrow> fetcher \<Rightarrow> earnings_row list \<Rightarrow> (earnings_row list \<times> fetcher) option"
      and env B startIdx st validData res
    assume ih: "\<And>env B startIdx st validData res.
        f env B startIdx st validData = Some res \<Longrightarrow>
        map SolanaTokenId (fst res) = map SolanaTokenId validData"
      and eq: "(if startIdx < length validData then
          (let endIdx = min (startIdx + B) (length validData)
           in case process_batch env st (take (endIdx - startIdx) (drop startIdx validData)) of
                None \<Rightarrow> None
              | Some (rows, st') \<Rightarrow>
                  f env B (startIdx + B) (sleep 200 st')
                    (take startIdx validData @ rows @ drop endIdx validData))
        else Some (validData, st)) = Some res"
    show "map SolanaTokenId (fst res) = map SolanaTokenId validData"
    proof (cases "startIdx < length validData")
      case False
      with eq show ?thesis by auto
    next
      case True
      let ?endIdx = "min (startIdx + B) (length validData)"
      let ?batch = "take (?endIdx - startIdx) (drop startIdx validData)"
      from eq True obtain rows1 st1 where pb: "process_batch env st ?batch = Some (rows1, st1)"
        and rec: "f env B (startIdx + B) (sleep 200 st1)
                    (take startIdx validData @ rows1 @ drop ?endIdx validData) = Some res"
        by (auto simp: Let_def split: option.splits)
      have b: "map SolanaTokenId rows1 = map SolanaTokenId ?batch"
        using pb by (rule process_batch_ids)
      have le: "startIdx \<le> ?endIdx" using True by simp
      have "?batch @ drop ?endIdx validData = drop startIdx validData"
      proof -
        have "drop ?endIdx validData = drop (?endIdx - startIdx) (drop startIdx validData)"
          using le by simp
        then show ?thesis by (simp only: append_take_drop_id)
      qed
      then have "take startIdx validData @ ?batch @ drop ?endIdx validData = validData"
        by simp
      then have "map SolanaTokenId (take startIdx validData @ rows1 @ drop ?endIdx validData) =
          map SolanaTokenId validData"
        using b by (metis map_append)
      with ih [OF rec] show ?thesis by simp
    qed
  qed
  then show ?thesis by simp
qed



lemma answered_gate:
  "maxConcurrent st' = maxConcurrent st \<Longrightarrow> activeRequests st' = activeRequests st \<Longrightarrow>
   answered env st' = answered env st"
  by (intro ext) (simp add: answered_def)

lemma process_batch_owners:
  "process_batch env st batch = Some (rows, st') \<Longrightarrow> \<forall>row \<in> set batch. valid_row row \<Longrightarrow>
   list_all2 (answered env st) batch rows \<and>
   maxConcurrent st' = maxConcurrent st \<and> activeRequests st' = activeRequests st"
proof (induction batch arbitrary: st rows st')
  case Nil
  then show ?case by simp
next
  case (Cons row batch)
  from Cons.prems(2) have v: "SolanaTokenId row \<noteq> None" "SolanaTokenId row \<noteq> Some []"
    by (auto simp: valid_row_def split: option.splits)
  with Cons.prems(1) obtain ow st1 rows' where
    g: "getNFTOwner env (SolanaTokenId row) st = Some (ow, st1)"
    and pb: "process_batch env st1 batch = Some (rows', st')"
    and rows: "rows = row\<lparr>OwnerWallet := ow\<rparr> # rows'"
    by (auto split: option.splits)
  from getNFTOwner_effect [OF g] have gate1:
    "maxConcurrent st1 = maxConcurrent st" "activeRequests st1 = activeRequests st"
    by simp_all
  from Cons.IH [OF pb] Cons.prems(2) have ih: "list_all2 (answered env st1) batch rows'"
    and gate': "maxConcurrent st' = maxConcurrent st1" "activeRequests st' = activeRequests st1"
    by simp_all
  have "answered env st row (row\<lparr>OwnerWallet := ow\<rparr>)"
    using g by (auto simp: answered_def)
  moreover have "list_all2 (answered env st) batch rows'"
    using ih answered_gate [OF gate1] by simp
  ultimately show ?case using rows gate1 gate' by simp
qed

lemma process_from_owners:
  assumes "process_from env B startIdx st validData = Some (rows, st')"
    and "\<forall>row \<in> set (drop startIdx validData). valid_row row"
  shows "\<exists>rows'. rows = take startIdx validData @ rows' \<and>
           list_all2 (answered env st) (drop startIdx validData) rows'"
proof -
  have "(\<forall>row \<in> set (drop startIdx validData). valid_row row) \<longrightarrow>
        (\<exists>rows'. fst (rows, st') = take startIdx validData @ rows' \<and>
           list_all2 (answered env st) (drop startIdx validData) rows')"
  proof (rule process_from.raw_induct
      [where P = "\<lambda>env B startIdx st validData res.
         (\<forall>row \<in> set (drop startIdx validData). valid_row row) \<longrightarrow>
         (\<exists>rows'. fst res = take startIdx validData @ rows' \<and>
           list_all2 (answered env st) (drop startIdx validData) rows')", OF _ assms(1)])
    fix f :: "helius_env \<Rightarrow> nat \<Rightarrow> nat \<Rightarrow> fetcher \<Rightarrow> earnings_row list \<Rightarrow> (earnings_row list \<times> fetcher) option"
      and env B startIdx st validData res
    assume ih: "\<And>env B startIdx st validData res.
        f env B startIdx st validData = Some res \<Longrightarrow>
        (\<forall>row \<in> set (drop startIdx validData). valid_row row) \<longrightarrow>
         (\<exists>rows'. fst res = take startIdx validData @ rows' \<and>
           list_all2 (answered env st) (drop startIdx validData) rows')"
      and eq: "(if startIdx < length validData then
          (let endIdx = min (startIdx + B) (length validData)
           in case process_batch env st (take (endIdx - startIdx) (drop startIdx validData)) of
                None \<Rightarrow> None
              | Some (rows, st') \<Rightarrow>
                  f env B (startIdx + B) (sleep 200 st')
                    (take startIdx validData @ rows @ drop endIdx validData))
        else Some (validData, st)) = Some res"
    show "(\<forall>row \<in> set (drop startIdx validData). valid_row row) \<longrightarrow>
         (\<exists>rows'. fst res = take startIdx validData @ rows' \<and>
           list_all2 (answered env st) (drop startIdx validData) rows')"
    proof (intro impI, cases "startIdx < length validData")
      case False
      with eq have "fst res = validData" by auto
      with False show "\<exists>rows'. fst res = take startIdx validData @ rows' \<and>
           list_all2 (answered env st) (drop startIdx validData) rows'"
        by simp
    next
      case True
      assume valid: "\<forall>row \<in> set (drop startIdx validData). valid_row row"
      let ?endIdx = "min (startIdx + B) (length validData)"
      let ?batch = "take (?endIdx - startIdx) (drop startIdx validData)"
      let ?next = "\<lambda>rows1. take startIdx validData @ rows1 @ drop ?endIdx validData"
      from eq True obtain rows1 st1 where pb: "process_batch env st ?batch = Some (rows1, st1)"
        and rec: "f env B (startIdx + B) (sleep 200 st1) (?next rows1) = Some res"
        by (auto simp: Let_def split: option.splits)
      have vb: "\<forall>row \<in> set ?batch. valid_row row"
        using valid by (meson in_set_takeD)
      from process_batch_owners [OF pb vb] have b: "list_all2 (answered env st) ?batch rows1"
        and gate: "maxConcurrent st1 = maxConcurrent st" "activeRequests st1 = activeRequests st"
        by simp_all
      have gate2: "maxConcurrent (sleep 200 st1) = maxConcurrent st"
        "activeRequests (sleep 200 st1) = activeRequests st"
        using gate by (simp_all add: sleep_def)
      have len1: "length rows1 = ?endIdx - startIdx"
        using list_all2_lengthD [OF b] True by simp
      have split: "?batch @ drop ?endIdx validData = drop startIdx validData"
      proof -
        have "drop ?endIdx validData = drop (?endIdx - startIdx) (drop startIdx validData)"
          using True by simp
        then show ?thesis by (simp only: append_take_drop_id)
      qed
      have tkdr: "take (startIdx + B) (?next rows1) = take startIdx validData @ rows1 \<and>
          drop (startIdx + B) (?next rows1) = drop ?endIdx validData"
      proof (cases "startIdx + B \<le> length validData")
        case le: True
        then have "length rows1 = B" using len1 by simp
        then show ?thesis using True le by simp
      next
        case gt: False
        then have "length rows1 = length validData - startIdx" using len1 by simp
        then show ?thesis using True gt by simp
      qed
      have vr: "\<forall>row \<in> set (drop (startIdx + B) (?next rows1)). valid_row row"
      proof -
        have "set (drop ?endIdx validData) \<subseteq> set (drop startIdx validData)"
          using split by (metis Un_upper2 set_append)
        then show ?thesis using valid tkdr by auto
      qed
      from ih [OF rec] vr obtain rows2 where
        r: "fst res = take (startIdx + B) (?next rows1) @ rows2"
        and a: "list_all2 (answered env (sleep 200 st1)) (drop (startIdx + B) (?next rows1)) rows2"
        by blast
      have a': "list_all2 (answered env st) (drop ?endIdx validData) rows2"
        using a tkdr answered_gate [OF gate2] by simp
      have "fst res = take startIdx validData @ (rows1 @ rows2)"
        using r tkdr by simp
      moreover have "list_all2 (answered env st) (drop startIdx validData) (rows1 @ rows2)"
        using list_all2_appendI [OF b a'] split by simp
      ultimately show "\<exists>rows'. fst res = take startIdx validData @ rows' \<and>
           list_all2 (answered env st) (drop startIdx validData) rows'"
        by blast
    qed
  qed
  then show ?thesis using assms(2) by simp
qed

lemma processEarningsCSV_rows:
  assumes "processEarningsCSV env B st data = Some (Inr out)"
  shows "map SolanaTokenId (written out) = map SolanaTokenId (filter valid_row data) \<and>
         list_all2 (answered env st) (filter valid_row data) (written out) \<and>
         total_s out = length (written out) \<and>
         found_s out = length (filter has_owner (written out)) \<and>
         missing_s out = length (filter (\<lambda>row. \<not> has_owner row) (written out))"
proof -
  let ?valid = "map (\<lambda>row. row\<lparr>OwnerWallet := None\<rparr>) (filter valid_row data)"
  from assms obtain validData st' where pf: "process_from env B 0 st ?valid = Some (validData, st')"
    and out: "out = \<lparr>written = validData, total_s = length validData,
                     found_s = length (filter has_owner validData),
                     missing_s = length validData - length (filter has_owner validData)\<rparr>"
    by (auto simp: processEarningsCSV_def split: list.splits if_splits option.splits)
  have "map SolanaTokenId validData = map SolanaTokenId ?valid"
    using pf by (rule process_from_ids)
  then have ids: "map SolanaTokenId validData = map SolanaTokenId (filter valid_row data)"
    by (simp add: comp_def)
  have "\<forall>row \<in> set (drop 0 ?valid). valid_row row"
    by (auto simp: valid_row_def)
  from process_from_owners [OF pf this] have "list_all2 (answered env st) ?valid validData"
    by simp
  then have "list_all2 (\<lambda>row. answered env st (row\<lparr>OwnerWallet := None\<rparr>))
      (filter valid_row data) validData"
    by (simp only: list_all2_map1)
  moreover have "(\<lambda>row. answered env st (row\<lparr>OwnerWallet := None\<rparr>)) = answered env st"
    by (intro ext) (simp add: answered_def)
  ultimately have own: "list_all2 (answered env st) (filter valid_row data) validData"
    by simp
  have "length validData = length (filter has_owner validData) +
      length (filter (\<lambda>row. \<not> has_owner row) validData)"
    by (rule sum_length_filter_compl [symmetric])
  then have "length validData - length (filter has_owner validData) =
      length (filter (\<lambda>row. \<not> has_owner row) validData)"
    by simp
  with ids own show ?thesis by (simp add: out)
qed
section \<open>The example runs, evaluated\<close>

lemma example_run:
  "snapshotNFTs example_env 3 2 100 =
     Some (Inr \<lparr>csvData =
              [\<lparr>TokenId = 1, Owner = ''0xA1'', Chain = ''ethereum'', BlockNumber = 100\<rparr>,
               \<lparr>TokenId = 2, Owner = ''0xB2'', Chain = ''ethereum'', BlockNumber = 100\<rparr>],
            foundTokens =
              [1 \<mapsto> \<lparr>owner = ''0xA1'', block = 100\<rparr>, 2 \<mapsto> \<lparr>owner = ''0xB2'', block = 100\<rparr>],
            missingTokens = [3], found = 2, missing = 1\<rparr>)"
  by (simp add: snapshotNFTs_def initial_batches.simps batch_from.simps example_env_def
        init_state_def getTokenOwnerBatch_def found_owner_def ZeroAddress_def set_add_def
        set_delete_def recheck_upto_def recheck_loop.simps recheck_pass_def recheck_batches.simps
        recheck_batch_size_def recheck_group_def generate_output_def csv_rows_def
        object_entries_def)

lemma example_panda_run:
  "panda_snapshotNFTs eligible_standalone example_envs example_chains 3 2 =
     Some (Inr \<lparr>processedData =
              [\<lparr>TokenId_p = 1, Owner_p = ''0xA1'', Chain_p = ''ethereum'', BlockNumber_p = Some 100\<rparr>,
               \<lparr>TokenId_p = 2, Owner_p = ''0xB2'', Chain_p = ''polygon'', BlockNumber_p = Some 300\<rparr>],
            snapshot_p =
              [1 \<mapsto> \<lparr>owner_p = ''0xA1'', chain_p = ''ethereum'', block_p = Some 100\<rparr>,
               2 \<mapsto> \<lparr>owner_p = ''0xB2'', chain_p = ''polygon'', block_p = Some 300\<rparr>],
            unresolved_p = [3], found_p = 2, missing_p = 1, uniqueWallets = 2\<rparr>)"
  by (simp add: panda_snapshotNFTs_def initial_batches.simps batch_from.simps example_envs_def
        example_chains_def init_state_p_def getTokenOwnerBatch_def found_owner_def
        ZeroAddress_def set_add_def set_delete_def panda_recheck_upto_def
        panda_recheck_loop.simps panda_recheck_pass_def recheck_batches.simps
        recheck_batch_size_def panda_recheck_group_def panda_generate_output_def
        panda_csv_rows_def object_entries_def eligible_standalone_def has_snapshot_block_def
        chain_block_def generateWalletSummary_def count_wallet_def)


lemma example_sweep:
  "initial_batches 3 2 1 = Some [[1, 2], [3]]"
  "initial_sweep example_env 100 init_state [[1, 2], [3]] =
     Inr example_swept"
  by (simp_all add: example_swept_def initial_batches.simps batch_from.simps example_env_def init_state_def
        getTokenOwnerBatch_def found_owner_def ZeroAddress_def set_add_def)

lemma example_rechecks:
  "recheck_upto example_env 100 2 0
      example_swept =
     example_swept"
  "recheck_upto example_env 100 2 3
      example_swept =
     \<lparr>finalSnapshot = [1 \<mapsto> \<lparr>owner = ''0xA1'', block = 100\<rparr>, 2 \<mapsto> \<lparr>owner = ''0xB2'', block = 100\<rparr>],
      tokensToRecheck = [3], totalFound = 2, calls = 6\<rparr>"
  by (simp_all add: example_swept_def example_env_def getTokenOwnerBatch_def found_owner_def ZeroAddress_def
        set_delete_def recheck_upto_def recheck_loop.simps recheck_pass_def
        recheck_batches.simps recheck_batch_size_def recheck_group_def)

lemma example_panda_sweep:
  "panda_initial_sweep eligible_standalone example_envs example_chains init_state_p [[1, 2], [3]] =
     Inr example_swept_p"
  by (simp add: example_swept_p_def example_envs_def example_chains_def init_state_p_def getTokenOwnerBatch_def
        found_owner_def ZeroAddress_def set_add_def eligible_standalone_def
        has_snapshot_block_def chain_block_def)

lemma example_panda_rechecks:
  "panda_recheck_upto eligible_standalone example_envs example_chains 2 0
      example_swept_p =
     example_swept_p"
  "panda_recheck_upto eligible_standalone example_envs example_chains 2 3
      example_swept_p =
     \<lparr>finalSnapshot_p =
        [1 \<mapsto> \<lparr>owner_p = ''0xA1'', chain_p = ''ethereum'', block_p = Some 100\<rparr>,
         2 \<mapsto> \<lparr>owner_p = ''0xB2'', chain_p = ''polygon'', block_p = Some 300\<rparr>],
      tokensToRecheck_p = [3],
      chainStats = (\<lambda>chainName. 0)(''ethereum'' := 1, ''polygon'' := 1), calls_p = 10\<rparr>"
  by (simp_all add: example_swept_p_def example_envs_def example_chains_def getTokenOwnerBatch_def found_owner_def
        ZeroAddress_def set_delete_def panda_recheck_upto_def panda_recheck_loop.simps
        panda_recheck_pass_def recheck_batches.simps recheck_batch_size_def
        panda_recheck_group_def eligible_standalone_def has_snapshot_block_def chain_block_def)








lemma example_earnings:
  "processEarningsCSV helius_down 50 idle_fetcher
     [\<lparr>SolanaTokenId = Some mintA, OwnerWallet = None\<rparr>,
      \<lparr>SolanaTokenId = Some [0x00A0], OwnerWallet = None\<rparr>] =
   Some (Inr \<lparr>written = [\<lparr>SolanaTokenId = Some mintA, OwnerWallet = None\<rparr>],
              total_s = 1, found_s = 0, missing_s = 1\<rparr>)"
proof -
  have v: "filter valid_row
     [\<lparr>SolanaTokenId = Some mintA, OwnerWallet = None\<rparr>,
      \<lparr>SolanaTokenId = Some [0x00A0], OwnerWallet = None\<rparr>] =
     [\<lparr>SolanaTokenId = Some mintA, OwnerWallet = None\<rparr>]"
    by (simp add: valid_row_iff not_blank_mints blank_cells)
  have b: "process_batch helius_down idle_fetcher [\<lparr>SolanaTokenId = Some mintA, OwnerWallet = None\<rparr>] =
     Some ([\<lparr>SolanaTokenId = Some mintA, OwnerWallet = None\<rparr>],
           snd (the (getNFTOwner helius_down (Some mintA) idle_fetcher)))"
    by (simp add: example_fetch_down mints_differ)
  have p: "process_from helius_down 50 0 idle_fetcher [\<lparr>SolanaTokenId = Some mintA, OwnerWallet = None\<rparr>] =
     Some ([\<lparr>SolanaTokenId = Some mintA, OwnerWallet = None\<rparr>],
           sleep 200 (snd (the (getNFTOwner helius_down (Some mintA) idle_fetcher))))"
    by (subst process_from.simps, simp add: b del: process_batch.simps)
       (subst process_from.simps, simp)
  show ?thesis
    by (simp add: processEarningsCSV_def v p has_owner_def del: filter.simps)
qed

lemma example_earnings_partial:
  "processEarningsCSV helius_partial 50 idle_fetcher
     [\<lparr>SolanaTokenId = Some mintA, OwnerWallet = None\<rparr>,
      \<lparr>SolanaTokenId = Some mintB, OwnerWallet = None\<rparr>,
      \<lparr>SolanaTokenId = Some [0x00A0], OwnerWallet = None\<rparr>] =
   Some (Inr \<lparr>written = [\<lparr>SolanaTokenId = Some mintA, OwnerWallet = Some ''wallet1''\<rparr>,
                         \<lparr>SolanaTokenId = Some mintB, OwnerWallet = None\<rparr>],
              total_s = 2, found_s = 1, missing_s = 1\<rparr>)"
proof -
  let ?st1 = "\<lparr>maxConcurrent = 30, activeRequests = 0, posts = 2,
        trace = [Acquire, PostLargestAccounts mintA, Sleep 200, PostAccountInfo ''acct1'',
                 Release]\<rparr>"
  let ?rows = "[\<lparr>SolanaTokenId = Some mintA, OwnerWallet = None\<rparr>,
      \<lparr>SolanaTokenId = Some mintB, OwnerWallet = None\<rparr>]"
  let ?out = "[\<lparr>SolanaTokenId = Some mintA, OwnerWallet = Some ''wallet1''\<rparr>,
      \<lparr>SolanaTokenId = Some mintB, OwnerWallet = None\<rparr>]"
  have v: "filter valid_row
     [\<lparr>SolanaTokenId = Some mintA, OwnerWallet = None\<rparr>,
      \<lparr>SolanaTokenId = Some mintB, OwnerWallet = None\<rparr>,
      \<lparr>SolanaTokenId = Some [0x00A0], OwnerWallet = None\<rparr>] = ?rows"
    by (simp add: valid_row_iff not_blank_mints blank_cells)
  have "activeRequests ?st1 < maxConcurrent ?st1" by simp
  then obtain st2 where u: "getNFTOwner helius_partial (Some mintB) ?st1 = Some (None, st2)"
    using example_fetch_unknown by blast
  have b: "process_batch helius_partial idle_fetcher ?rows = Some (?out, st2)"
    by (simp add: example_fetch_partial u mints_differ)
  have p: "process_from helius_partial 50 0 idle_fetcher ?rows = Some (?out, sleep 200 st2)"
    by (subst process_from.simps, simp add: b del: process_batch.simps)
       (subst process_from.simps, simp)
  have f: "filter has_owner ?out = [\<lparr>SolanaTokenId = Some mintA, OwnerWallet = Some ''wallet1''\<rparr>]"
    by (simp add: has_owner_def)
  show ?thesis
    by (simp add: processEarningsCSV_def v p f del: filter.simps)
qed

lemma silent_sweep:
  "initial_batches 7 12 1 = Some [[1, 2, 3, 4, 5, 6, 7]]"
  "initial_sweep silent_env 100 init_state [[1, 2, 3, 4, 5, 6, 7]] = Inr silent_swept"
  "panda_initial_sweep eligible_standalone (\<lambda>chainName. silent_env) example_chains init_state_p
     [[1, 2, 3, 4, 5, 6, 7]] = Inr silent_swept_p"
  by (simp_all add: silent_swept_def silent_swept_p_def initial_batches.simps batch_from.simps
        silent_env_def init_state_def init_state_p_def getTokenOwnerBatch_def found_owner_def
        set_add_def example_chains_def eligible_standalone_def has_snapshot_block_def
        chain_block_def)

lemma silent_calls:
  "tokensToRecheck (recheck_upto silent_env 100 12 1 silent_swept) = [1, 2, 3, 4, 5, 6, 7]"
  "tokensToRecheck (recheck_upto silent_env 100 12 2 silent_swept) = [1, 2, 3, 4, 5, 6, 7]"
  "tokensToRecheck (recheck_upto silent_env 100 12 (Suc 0) silent_swept) = [1, 2, 3, 4, 5, 6, 7]"
  "calls silent_swept = 1"
  "calls (recheck_upto silent_env 100 12 1 silent_swept) = 2"
  "calls (recheck_upto silent_env 100 12 (Suc 0) silent_swept) = 2"
  "calls (recheck_upto silent_env 100 12 2 silent_swept) = 4"
  "calls (recheck_upto silent_env 100 12 3 silent_swept) = 6"
  by code_simp+

lemma silent_panda_calls:
  "tokensToRecheck_p (panda_recheck_upto eligible_standalone (\<lambda>chainName. silent_env)
     example_chains 12 2 silent_swept_p) = [1, 2, 3, 4, 5, 6, 7]"
  "calls_p silent_swept_p = 2"
  "calls_p (panda_recheck_upto eligible_standalone (\<lambda>chainName. silent_env) example_chains 12 1
     silent_swept_p) = 4"
  "calls_p (panda_recheck_upto eligible_standalone (\<lambda>chainName. silent_env) example_chains 12
     (Suc 0) silent_swept_p) = 4"
  "calls_p (panda_recheck_upto eligible_standalone (\<lambda>chainName. silent_env) example_chains 12 2
     silent_swept_p) = 8"
  "calls_p (panda_recheck_upto eligible_standalone (\<lambda>chainName. silent_env) example_chains 12 3
     silent_swept_p) = 12"
  by code_simp+

lemma silent_groups:
  "partitions_by 12 [1, 2, 3, 4, 5, 6, 7] [[1, 2, 3, 4, 5, 6, 7]]"
  "partitions_by 6 [1, 2, 3, 4, 5, 6, 7] [[1, 2, 3, 4, 5, 6], [7]]"
  "partitions_by 5 [1, 2, 3, 4, 5, 6, 7] [[1, 2, 3, 4, 5], [6, 7]]"
  by (simp_all add: partitions_by_def)

section \<open>The unresolved set and the final map along a run\<close>


lemma infinity_shrinking:
  assumes "initial_batches T B 1 = Some bs" and "initial_sweep env blk init_state bs = Inr s0"
    and "p \<le> q"
  shows "set (tokensToRecheck (recheck_upto env blk B q s0))
           \<subseteq> set (tokensToRecheck (recheck_upto env blk B p s0))"
    and "length (tokensToRecheck (recheck_upto env blk B q s0))
           \<le> length (tokensToRecheck (recheck_upto env blk B p s0))"
    and "tokenId \<in> set (tokensToRecheck (recheck_upto env blk B p s0)) \<and>
         tokenId \<notin> set (tokensToRecheck (recheck_upto env blk B q s0)) \<longleftrightarrow>
         tokenId \<in> dom (finalSnapshot (recheck_upto env blk B q s0)) \<and>
         tokenId \<notin> dom (finalSnapshot (recheck_upto env blk B p s0))"
    and "finalSnapshot (recheck_upto env blk B p s0) \<subseteq>\<^sub>m finalSnapshot (recheck_upto env blk B q s0)"
proof -
  have c0: "consistent s0" using initial_sweep_run [OF assms(1,2)] by simp
  have ca: "consistent (recheck_upto env blk B p s0)" using c0 by (rule recheck_upto_consistent)
  have sh: "shrinks (recheck_upto env blk B p s0) (recheck_upto env blk B q s0)"
    using c0 assms(3) by (rule recheck_upto_mono)
  show "set (tokensToRecheck (recheck_upto env blk B q s0))
           \<subseteq> set (tokensToRecheck (recheck_upto env blk B p s0))"
    using ca sh by (rule shrinks_facts(1))
  show "length (tokensToRecheck (recheck_upto env blk B q s0))
           \<le> length (tokensToRecheck (recheck_upto env blk B p s0))"
    using ca sh by (rule shrinks_facts(2))
  show "tokenId \<in> set (tokensToRecheck (recheck_upto env blk B p s0)) \<and>
         tokenId \<notin> set (tokensToRecheck (recheck_upto env blk B q s0)) \<longleftrightarrow>
         tokenId \<in> dom (finalSnapshot (recheck_upto env blk B q s0)) \<and>
         tokenId \<notin> dom (finalSnapshot (recheck_upto env blk B p s0))"
    using ca sh by (rule shrinks_facts(3))
  show "finalSnapshot (recheck_upto env blk B p s0) \<subseteq>\<^sub>m finalSnapshot (recheck_upto env blk B q s0)"
    using ca sh by (rule shrinks_facts(4))
qed

lemma panda_shrinking:
  assumes "initial_batches T B 1 = Some bs"
    and "panda_initial_sweep elig envs chs init_state_p bs = Inr s0"
    and "p \<le> q"
  shows "set (tokensToRecheck_p (panda_recheck_upto elig envs chs B q s0))
           \<subseteq> set (tokensToRecheck_p (panda_recheck_upto elig envs chs B p s0))"
    and "length (tokensToRecheck_p (panda_recheck_upto elig envs chs B q s0))
           \<le> length (tokensToRecheck_p (panda_recheck_upto elig envs chs B p s0))"
    and "tokenId \<in> set (tokensToRecheck_p (panda_recheck_upto elig envs chs B p s0)) \<and>
         tokenId \<notin> set (tokensToRecheck_p (panda_recheck_upto elig envs chs B q s0)) \<longleftrightarrow>
         tokenId \<in> dom (finalSnapshot_p (panda_recheck_upto elig envs chs B q s0)) \<and>
         tokenId \<notin> dom (finalSnapshot_p (panda_recheck_upto elig envs chs B p s0))"
    and "finalSnapshot_p (panda_recheck_upto elig envs chs B p s0)
           \<subseteq>\<^sub>m finalSnapshot_p (panda_recheck_upto elig envs chs B q s0)"
proof -
  have c0: "consistent_p s0" using panda_initial_sweep_run [OF assms(1,2)] by simp
  have ca: "consistent_p (panda_recheck_upto elig envs chs B p s0)"
    using c0 by (rule panda_recheck_upto_consistent)
  have sh: "shrinks_p (panda_recheck_upto elig envs chs B p s0) (panda_recheck_upto elig envs chs B q s0)"
    using c0 assms(3) by (rule panda_recheck_upto_mono)
  show "set (tokensToRecheck_p (panda_recheck_upto elig envs chs B q s0))
           \<subseteq> set (tokensToRecheck_p (panda_recheck_upto elig envs chs B p s0))"
    using ca sh by (rule shrinks_p_facts(1))
  show "length (tokensToRecheck_p (panda_recheck_upto elig envs chs B q s0))
           \<le> length (tokensToRecheck_p (panda_recheck_upto elig envs chs B p s0))"
    using ca sh by (rule shrinks_p_facts(2))
  show "tokenId \<in> set (tokensToRecheck_p (panda_recheck_upto elig envs chs B p s0)) \<and>
         tokenId \<notin> set (tokensToRecheck_p (panda_recheck_upto elig envs chs B q s0)) \<longleftrightarrow>
         tokenId \<in> dom (finalSnapshot_p (panda_recheck_upto elig envs chs B q s0)) \<and>
         tokenId \<notin> dom (finalSnapshot_p (panda_recheck_upto elig envs chs B p s0))"
    using ca sh by (rule shrinks_p_facts(3))
  show "finalSnapshot_p (panda_recheck_upto elig envs chs B p s0)
           \<subseteq>\<^sub>m finalSnapshot_p (panda_recheck_upto elig envs chs B q s0)"
    using ca sh by (rule shrinks_p_facts(4))
qed




lemma recheck_state_0: "recheck_state env blk B s0 p 0 = recheck_upto env blk B p s0"
  by (simp add: recheck_state_def)

lemma recheck_state_all:
  assumes "length (recheck_batches B (int (Suc p)) 0 (tokensToRecheck (recheck_upto env blk B p s0))) \<le> k"
  shows "recheck_state env blk B s0 p k = recheck_upto env blk B (Suc p) s0"
  using assms by (simp add: recheck_state_def recheck_upto_pass recheck_pass_def)

lemma recheck_state_shrinks:
  assumes "consistent s0" and "p < q \<or> (p = q \<and> j \<le> k)"
  shows "shrinks (recheck_state env blk B s0 p j) (recheck_state env blk B s0 q k)"
proof -
  have c: "consistent (recheck_upto env blk B n s0)" for n
    using assms(1) by (rule recheck_upto_consistent)
  have within: "shrinks (recheck_state env blk B s0 n a) (recheck_state env blk B s0 n b)"
    if "a \<le> b" for n a b
    unfolding recheck_state_def using c that by (rule recheck_groups_prefix)
  show ?thesis
  proof (cases "p < q")
    case False
    with assms(2) show ?thesis using within by blast
  next
    case True
    let ?n = "length (recheck_batches B (int (Suc p)) 0 (tokensToRecheck (recheck_upto env blk B p s0)))"
    have "shrinks (recheck_state env blk B s0 p j) (recheck_state env blk B s0 p (max j ?n))"
      by (rule within) simp
    moreover have "recheck_state env blk B s0 p (max j ?n) = recheck_upto env blk B (Suc p) s0"
      by (rule recheck_state_all) simp
    moreover have "shrinks (recheck_upto env blk B (Suc p) s0) (recheck_upto env blk B q s0)"
      using assms(1) True by (intro recheck_upto_mono) simp_all
    moreover have "shrinks (recheck_state env blk B s0 q 0) (recheck_state env blk B s0 q k)"
      by (rule within) simp
    ultimately show ?thesis
      by (metis recheck_state_0 shrinks_trans)
  qed
qed

lemma panda_recheck_state_0:
  "panda_recheck_state elig envs chs B s0 p 0 = panda_recheck_upto elig envs chs B p s0"
  by (simp add: panda_recheck_state_def)

lemma panda_recheck_state_all:
  assumes "length (recheck_batches B (int (Suc p)) 0
             (tokensToRecheck_p (panda_recheck_upto elig envs chs B p s0))) \<le> k"
  shows "panda_recheck_state elig envs chs B s0 p k = panda_recheck_upto elig envs chs B (Suc p) s0"
  using assms by (simp add: panda_recheck_state_def panda_recheck_upto_pass panda_recheck_pass_def)

lemma panda_recheck_state_shrinks:
  assumes "consistent_p s0" and "p < q \<or> (p = q \<and> j \<le> k)"
  shows "shrinks_p (panda_recheck_state elig envs chs B s0 p j)
                   (panda_recheck_state elig envs chs B s0 q k)"
proof -
  have c: "consistent_p (panda_recheck_upto elig envs chs B n s0)" for n
    using assms(1) by (rule panda_recheck_upto_consistent)
  have within: "shrinks_p (panda_recheck_state elig envs chs B s0 n a)
                          (panda_recheck_state elig envs chs B s0 n b)"
    if "a \<le> b" for n a b
    unfolding panda_recheck_state_def using c that by (rule panda_recheck_groups_prefix)
  show ?thesis
  proof (cases "p < q")
    case False
    with assms(2) show ?thesis using within by blast
  next
    case True
    let ?n = "length (recheck_batches B (int (Suc p)) 0
                (tokensToRecheck_p (panda_recheck_upto elig envs chs B p s0)))"
    have "shrinks_p (panda_recheck_state elig envs chs B s0 p j)
                    (panda_recheck_state elig envs chs B s0 p (max j ?n))"
      by (rule within) simp
    moreover have "panda_recheck_state elig envs chs B s0 p (max j ?n) =
        panda_recheck_upto elig envs chs B (Suc p) s0"
      by (rule panda_recheck_state_all) simp
    moreover have "shrinks_p (panda_recheck_upto elig envs chs B (Suc p) s0)
                             (panda_recheck_upto elig envs chs B q s0)"
      using assms(1) True by (intro panda_recheck_upto_mono) simp_all
    moreover have "shrinks_p (panda_recheck_state elig envs chs B s0 q 0)
                             (panda_recheck_state elig envs chs B s0 q k)"
      by (rule within) simp
    ultimately show ?thesis
      by (metis panda_recheck_state_0 shrinks_p_trans)
  qed
qed

lemma infinity_frame:
  assumes "initial_batches T B 1 = Some bs" and "initial_sweep env blk init_state bs = Inr s0"
  shows "j \<le> k \<Longrightarrow> initial_sweep env blk init_state (take j bs) = Inr sj \<Longrightarrow>
         initial_sweep env blk init_state (take k bs) = Inr sk \<Longrightarrow>
         finalSnapshot sj \<subseteq>\<^sub>m finalSnapshot sk"
    and "p < q \<or> (p = q \<and> j \<le> k) \<Longrightarrow>
         finalSnapshot (recheck_state env blk B s0 p j) \<subseteq>\<^sub>m finalSnapshot (recheck_state env blk B s0 q k)"
proof -
  have "concat bs = [1 .. T]" using assms(1) by (rule initial_batches_concat)
  then have d: "distinct (concat bs)" by simp
  show "finalSnapshot sj \<subseteq>\<^sub>m finalSnapshot sk"
    if "j \<le> k" "initial_sweep env blk init_state (take j bs) = Inr sj"
      "initial_sweep env blk init_state (take k bs) = Inr sk"
    using d that by (rule initial_sweep_prefix)
  have c0: "consistent s0" using initial_sweep_run [OF assms] by simp
  show "finalSnapshot (recheck_state env blk B s0 p j) \<subseteq>\<^sub>m finalSnapshot (recheck_state env blk B s0 q k)"
    if "p < q \<or> (p = q \<and> j \<le> k)"
    using recheck_state_shrinks [OF c0 that] by (simp add: shrinks_def)
qed

lemma panda_frame:
  assumes "initial_batches T B 1 = Some bs"
    and "panda_initial_sweep elig envs chs init_state_p bs = Inr s0"
  shows "j \<le> k \<Longrightarrow> panda_initial_sweep elig envs chs init_state_p (take j bs) = Inr sj \<Longrightarrow>
         panda_initial_sweep elig envs chs init_state_p (take k bs) = Inr sk \<Longrightarrow>
         finalSnapshot_p sj \<subseteq>\<^sub>m finalSnapshot_p sk"
    and "p < q \<or> (p = q \<and> j \<le> k) \<Longrightarrow>
         finalSnapshot_p (panda_recheck_state elig envs chs B s0 p j)
           \<subseteq>\<^sub>m finalSnapshot_p (panda_recheck_state elig envs chs B s0 q k)"
proof -
  have "concat bs = [1 .. T]" using assms(1) by (rule initial_batches_concat)
  then have d: "distinct (concat bs)" by simp
  show "finalSnapshot_p sj \<subseteq>\<^sub>m finalSnapshot_p sk"
    if "j \<le> k" "panda_initial_sweep elig envs chs init_state_p (take j bs) = Inr sj"
      "panda_initial_sweep elig envs chs init_state_p (take k bs) = Inr sk"
    using d that by (rule panda_initial_sweep_prefix)
  have c0: "consistent_p s0" using panda_initial_sweep_run [OF assms] by simp
  show "finalSnapshot_p (panda_recheck_state elig envs chs B s0 p j)
           \<subseteq>\<^sub>m finalSnapshot_p (panda_recheck_state elig envs chs B s0 q k)"
    if "p < q \<or> (p = q \<and> j \<le> k)"
    using panda_recheck_state_shrinks [OF c0 that] by (simp add: shrinks_p_def)
qed




lemma csv_rows_row:
  assumes "finite (dom fs)" and "row \<in> set (csv_rows fs)"
  shows "\<exists>k r. row = \<lparr>TokenId = k, Owner = owner r, Chain = ''ethereum'', BlockNumber = block r\<rparr> \<and>
      fs k = Some r"
  using assms(2) unfolding csv_rows_set [OF assms(1)] by blast

lemma csv_rows_entry:
  assumes "finite (dom fs)" and "fs k = Some r"
  shows "\<lparr>TokenId = k, Owner = owner r, Chain = ''ethereum'', BlockNumber = block r\<rparr> \<in> set (csv_rows fs)"
  using assms(2) unfolding csv_rows_set [OF assms(1)] by blast

lemma csv_rows_ids:
  assumes "finite (dom fs)"
  shows "TokenId ` set (csv_rows fs) = dom fs"
proof (intro set_eqI iffI)
  fix k assume "k \<in> TokenId ` set (csv_rows fs)"
  then obtain row where r: "row \<in> set (csv_rows fs)" and k: "k = TokenId row" by blast
  from csv_rows_row [OF assms r] obtain k' r' where
    "row = \<lparr>TokenId = k', Owner = owner r', Chain = ''ethereum'', BlockNumber = block r'\<rparr>"
    and "fs k' = Some r'" by blast
  then show "k \<in> dom fs" using k by (simp add: domI)
next
  fix k assume "k \<in> dom fs"
  then obtain r where "fs k = Some r" by (auto simp: dom_def)
  from csv_rows_entry [OF assms this] show "k \<in> TokenId ` set (csv_rows fs)"
    by (rule image_eqI [rotated]) simp
qed


lemma infinity_rows:
  assumes "snapshotNFTs env T B blk = Some (Inr res)"
  shows "TokenId ` set (csvData res) = dom (foundTokens res)"
    and "\<forall>row \<in> set (csvData res).
           foundTokens res (TokenId row) = Some \<lparr>owner = Owner row, block = BlockNumber row\<rparr> \<and>
           Owner row \<noteq> [] \<and> Owner row \<noteq> ZeroAddress"
    and "\<forall>tokenId \<in> set (missingTokens res). tokenId \<notin> TokenId ` set (csvData res)"
    and "int (length (missingTokens res)) = (if 0 \<le> T then missing res else 0)"
proof -
  from assms obtain bs s0 where "initial_batches T B 1 = Some bs"
    and res: "res = generate_output T (recheck_upto env blk B 3 s0)"
    and c: "consistent (recheck_upto env blk B 3 s0)"
    and cov: "covered (recheck_upto env blk B 3 s0) = {1 .. T}"
    by (rule snapshotNFTs_final)
  let ?st = "recheck_upto env blk B 3 s0"
  have f1: "foundTokens res = finalSnapshot ?st" and f2: "missingTokens res = tokensToRecheck ?st"
    and f3: "csvData res = csv_rows (finalSnapshot ?st)"
    and f4: "missing res = T - int (totalFound ?st)"
    by (simp_all add: res generate_output_def)
  have fin: "finite (dom (finalSnapshot ?st))" using c by (rule finite_dom_consistent)
  show ids: "TokenId ` set (csvData res) = dom (foundTokens res)"
    unfolding f1 f3 using fin by (rule csv_rows_ids)
  show "\<forall>row \<in> set (csvData res).
           foundTokens res (TokenId row) = Some \<lparr>owner = Owner row, block = BlockNumber row\<rparr> \<and>
           Owner row \<noteq> [] \<and> Owner row \<noteq> ZeroAddress"
  proof
    fix row assume "row \<in> set (csvData res)"
    then have "row \<in> set (csv_rows (finalSnapshot ?st))" by (simp only: f3)
    from csv_rows_row [OF fin this] obtain k r where
      row: "row = \<lparr>TokenId = k, Owner = owner r, Chain = ''ethereum'', BlockNumber = block r\<rparr>"
      and e: "finalSnapshot ?st k = Some r" by blast
    have "owner r \<noteq> [] \<and> owner r \<noteq> ZeroAddress"
      using c e unfolding consistent_def by blast
    then show "foundTokens res (TokenId row) = Some \<lparr>owner = Owner row, block = BlockNumber row\<rparr> \<and>
           Owner row \<noteq> [] \<and> Owner row \<noteq> ZeroAddress"
      unfolding f1 row using e by simp
  qed
  have disj: "dom (finalSnapshot ?st) \<inter> set (tokensToRecheck ?st) = {}"
    using c by (simp add: consistent_def)
  have "TokenId ` set (csvData res) \<inter> set (missingTokens res) = {}"
    using disj by (simp only: ids f1 f2)
  then have d: "\<forall>x. x \<in> TokenId ` set (csvData res) \<longrightarrow> x \<notin> set (missingTokens res)"
    by (simp only: disjoint_iff)
  show "\<forall>tokenId \<in> set (missingTokens res). tokenId \<notin> TokenId ` set (csvData res)"
  proof (intro ballI notI)
    fix tokenId
    assume a: "tokenId \<in> set (missingTokens res)" and b: "tokenId \<in> TokenId ` set (csvData res)"
    from d [rule_format, OF b] a show False by (rule notE)
  qed
  show "int (length (missingTokens res)) = (if 0 \<le> T then missing res else 0)"
  proof (cases "0 \<le> T")
    case True
    from consistent_split(3) [OF c cov True] show ?thesis using True by (simp add: f2 f4)
  next
    case False
    then have "covered ?st = {}" using cov by simp
    then have "tokensToRecheck ?st = []" by (simp add: covered_def)
    then show ?thesis using False by (simp add: f2)
  qed
qed



lemma panda_csv_rows_set:
  assumes "finite (dom fs)"
  shows "set (panda_csv_rows fs) =
    {\<lparr>TokenId_p = k, Owner_p = owner_p r, Chain_p = chain_p r, BlockNumber_p = block_p r\<rparr> | k r.
       fs k = Some r}"
  unfolding panda_csv_rows_def using set_object_entries [OF assms] by (auto simp: image_iff)

lemma panda_csv_rows_row:
  assumes "finite (dom fs)" and "row \<in> set (panda_csv_rows fs)"
  shows "\<exists>k r. row = \<lparr>TokenId_p = k, Owner_p = owner_p r, Chain_p = chain_p r,
                       BlockNumber_p = block_p r\<rparr> \<and> fs k = Some r"
  using assms(2) unfolding panda_csv_rows_set [OF assms(1)] by blast

lemma panda_csv_rows_entry:
  assumes "finite (dom fs)" and "fs k = Some r"
  shows "\<lparr>TokenId_p = k, Owner_p = owner_p r, Chain_p = chain_p r, BlockNumber_p = block_p r\<rparr>
           \<in> set (panda_csv_rows fs)"
  using assms(2) unfolding panda_csv_rows_set [OF assms(1)] by blast

lemma panda_csv_rows_ids:
  assumes "finite (dom fs)"
  shows "TokenId_p ` set (panda_csv_rows fs) = dom fs"
proof (intro set_eqI iffI)
  fix k assume "k \<in> TokenId_p ` set (panda_csv_rows fs)"
  then obtain row where r: "row \<in> set (panda_csv_rows fs)" and k: "k = TokenId_p row" by blast
  from panda_csv_rows_row [OF assms r] obtain k' r' where
    "row = \<lparr>TokenId_p = k', Owner_p = owner_p r', Chain_p = chain_p r', BlockNumber_p = block_p r'\<rparr>"
    and "fs k' = Some r'" by blast
  then show "k \<in> dom fs" using k by (simp add: domI)
next
  fix k assume "k \<in> dom fs"
  then obtain r where "fs k = Some r" by (auto simp: dom_def)
  from panda_csv_rows_entry [OF assms this] show "k \<in> TokenId_p ` set (panda_csv_rows fs)"
    by (rule image_eqI [rotated]) simp
qed

lemma panda_rows:
  assumes "panda_snapshotNFTs elig envs chs T B = Some (Inr res)"
  shows "TokenId_p ` set (processedData res) = dom (snapshot_p res)"
    and "\<forall>row \<in> set (processedData res).
           snapshot_p res (TokenId_p row) =
             Some \<lparr>owner_p = Owner_p row, chain_p = Chain_p row, block_p = BlockNumber_p row\<rparr> \<and>
           Owner_p row \<noteq> [] \<and> Owner_p row \<noteq> ZeroAddress"
    and "\<forall>tokenId \<in> set (unresolved_p res). tokenId \<notin> TokenId_p ` set (processedData res)"
    and "int (length (unresolved_p res)) = (if 0 \<le> T then missing_p res else 0)"
proof -
  from assms obtain bs s0 where "initial_batches T B 1 = Some bs"
    and res: "res = panda_generate_output T (panda_recheck_upto elig envs chs B 3 s0)"
    and c: "consistent_p (panda_recheck_upto elig envs chs B 3 s0)"
    and cov: "covered_p (panda_recheck_upto elig envs chs B 3 s0) = {1 .. T}"
    by (rule panda_snapshotNFTs_final)
  let ?st = "panda_recheck_upto elig envs chs B 3 s0"
  have f1: "snapshot_p res = finalSnapshot_p ?st" and f2: "unresolved_p res = tokensToRecheck_p ?st"
    and f3: "processedData res = panda_csv_rows (finalSnapshot_p ?st)"
    and f4: "missing_p res = T - int (card (dom (finalSnapshot_p ?st)))"
    by (simp_all add: res panda_generate_output_def)
  have fin: "finite (dom (finalSnapshot_p ?st))" using c by (simp add: consistent_p_def)
  show ids: "TokenId_p ` set (processedData res) = dom (snapshot_p res)"
    unfolding f1 f3 using fin by (rule panda_csv_rows_ids)
  show "\<forall>row \<in> set (processedData res).
           snapshot_p res (TokenId_p row) =
             Some \<lparr>owner_p = Owner_p row, chain_p = Chain_p row, block_p = BlockNumber_p row\<rparr> \<and>
           Owner_p row \<noteq> [] \<and> Owner_p row \<noteq> ZeroAddress"
  proof
    fix row assume "row \<in> set (processedData res)"
    then have "row \<in> set (panda_csv_rows (finalSnapshot_p ?st))" by (simp only: f3)
    from panda_csv_rows_row [OF fin this] obtain k r where
      row: "row = \<lparr>TokenId_p = k, Owner_p = owner_p r, Chain_p = chain_p r, BlockNumber_p = block_p r\<rparr>"
      and e: "finalSnapshot_p ?st k = Some r" by blast
    have "owner_p r \<noteq> [] \<and> owner_p r \<noteq> ZeroAddress"
      using c e unfolding consistent_p_def by blast
    then show "snapshot_p res (TokenId_p row) =
             Some \<lparr>owner_p = Owner_p row, chain_p = Chain_p row, block_p = BlockNumber_p row\<rparr> \<and>
           Owner_p row \<noteq> [] \<and> Owner_p row \<noteq> ZeroAddress"
      unfolding f1 row using e by simp
  qed
  have disj: "dom (finalSnapshot_p ?st) \<inter> set (tokensToRecheck_p ?st) = {}"
    using c by (simp add: consistent_p_def)
  have "TokenId_p ` set (processedData res) \<inter> set (unresolved_p res) = {}"
    using disj by (simp only: ids f1 f2)
  then have d: "\<forall>x. x \<in> TokenId_p ` set (processedData res) \<longrightarrow> x \<notin> set (unresolved_p res)"
    by (simp only: disjoint_iff)
  show "\<forall>tokenId \<in> set (unresolved_p res). tokenId \<notin> TokenId_p ` set (processedData res)"
  proof (intro ballI notI)
    fix tokenId
    assume a: "tokenId \<in> set (unresolved_p res)" and b: "tokenId \<in> TokenId_p ` set (processedData res)"
    from d [rule_format, OF b] a show False by (rule notE)
  qed
  show "int (length (unresolved_p res)) = (if 0 \<le> T then missing_p res else 0)"
  proof (cases "0 \<le> T")
    case True
    from consistent_p_split(3) [OF c cov True] show ?thesis using True by (simp add: f2 f4)
  next
    case False
    then have "covered_p ?st = {}" using cov by simp
    then have "tokensToRecheck_p ?st = []" by (simp add: covered_p_def)
    then show ?thesis using False by (simp add: f2)
  qed
qed

text \<open>The groups that the initial sweep and the recheck passes work on.\<close>

lemma initial_batches_partition:
  assumes "initial_batches T B i = Some bs"
  shows "partitions_by (nat B) [i .. T] bs"
proof (cases "0 < B")
  case True
  then show ?thesis using initial_batches_from [of B T i] assms by auto
next
  case False
  then have "T < i" using assms initial_batches_nonpos by fastforce
  moreover from this have "initial_batches T B i = Some []"
    by (subst initial_batches.simps) simp
  ultimately show ?thesis using assms by (simp add: partitions_by_Nil)
qed

lemma recheck_pass_groups:
  "\<exists>groups. partitions_by (nat (max 5 (B div int pass))) (tokensToRecheck st) groups \<and>
     recheck_pass env blk B pass st = foldl (recheck_group env blk pass) st groups"
  using recheck_batches_partition [of B "int pass" "tokensToRecheck st"]
  by (auto simp: recheck_pass_def recheck_batch_size_def)

lemma panda_recheck_pass_groups:
  "\<exists>groups. partitions_by (nat (max 5 (B div int pass))) (tokensToRecheck_p st) groups \<and>
     panda_recheck_pass elig envs chs B pass st =
       foldl (panda_recheck_group elig envs chs pass) st groups"
  using recheck_batches_partition [of B "int pass" "tokensToRecheck_p st"]
  by (auto simp: panda_recheck_pass_def recheck_batch_size_def)

lemma recheck_upto_groups:
  assumes "0 < pass"
  shows "\<exists>groups.
     partitions_by (nat (max 5 (B div int pass)))
       (tokensToRecheck (recheck_upto env blk B (pass - 1) s0)) groups \<and>
     recheck_upto env blk B pass s0 =
       foldl (recheck_group env blk pass) (recheck_upto env blk B (pass - 1) s0) groups"
proof -
  from assms obtain p where p: "pass = Suc p" by (cases pass) auto
  show ?thesis
    unfolding p using recheck_pass_groups [of B "Suc p" "recheck_upto env blk B p s0" env blk]
    by (simp add: recheck_upto_pass)
qed

lemma panda_recheck_upto_groups:
  assumes "0 < pass"
  shows "\<exists>groups.
     partitions_by (nat (max 5 (B div int pass)))
       (tokensToRecheck_p (panda_recheck_upto elig envs chs B (pass - 1) s0)) groups \<and>
     panda_recheck_upto elig envs chs B pass s0 =
       foldl (panda_recheck_group elig envs chs pass)
         (panda_recheck_upto elig envs chs B (pass - 1) s0) groups"
proof -
  from assms obtain p where p: "pass = Suc p" by (cases pass) auto
  show ?thesis
    unfolding p
    using panda_recheck_pass_groups [of B "Suc p" "panda_recheck_upto elig envs chs B p s0" elig envs chs]
    by (simp add: panda_recheck_upto_pass)
qed

section \<open>The claims\<close>

text \<open>
  Claim C1. After a complete run of either snapshotter, every token id in
  \<open>1 .. TOTAL_SUPPLY\<close> is in exactly one of two states: it has an entry in the final map,
  whose owner is a non-empty string other than the zero address, and is not among the
  unresolved tokens; or it has no entry and is among the unresolved tokens. The map has
  no entry outside the range and none with the zero address, and (for a supply that is
  not negative) the reported number of tokens not found is the number of ids without an
  entry.
\<close>

theorem every_token_found_or_missing:
  "(snapshotNFTs env T B blk = Some (Inr res) \<longrightarrow>
      (\<forall>tokenId \<in> {1 .. T}.
          case foundTokens res tokenId of
            Some r \<Rightarrow> owner r \<noteq> [] \<and> owner r \<noteq> ZeroAddress \<and> tokenId \<notin> set (missingTokens res)
          | None \<Rightarrow> tokenId \<in> set (missingTokens res)) \<and>
      (\<forall>tokenId r. foundTokens res tokenId = Some r \<longrightarrow>
          tokenId \<in> {1 .. T} \<and> owner r \<noteq> [] \<and> owner r \<noteq> ZeroAddress) \<and>
      found res = card (dom (foundTokens res)) \<and>
      (0 \<le> T \<longrightarrow> missing res = int (card {tokenId \<in> {1 .. T}. foundTokens res tokenId = None}))) \<and>
   (panda_snapshotNFTs elig envs chs T' B' = Some (Inr pres) \<longrightarrow>
      (\<forall>tokenId \<in> {1 .. T'}.
          case snapshot_p pres tokenId of
            Some r \<Rightarrow> owner_p r \<noteq> [] \<and> owner_p r \<noteq> ZeroAddress \<and> tokenId \<notin> set (unresolved_p pres)
          | None \<Rightarrow> tokenId \<in> set (unresolved_p pres)) \<and>
      (\<forall>tokenId r. snapshot_p pres tokenId = Some r \<longrightarrow>
          tokenId \<in> {1 .. T'} \<and> owner_p r \<noteq> [] \<and> owner_p r \<noteq> ZeroAddress) \<and>
      found_p pres = card (dom (snapshot_p pres)) \<and>
      (0 \<le> T' \<longrightarrow> missing_p pres = int (card {tokenId \<in> {1 .. T'}. snapshot_p pres tokenId = None})))"
  using infinity_partition [of env T B blk res] panda_partition [of elig envs chs T' B' pres]
  by blast

theorem every_token_found_or_missing_witness:
  "snapshotNFTs example_env 3 2 100 \<noteq> None \<and>
   panda_snapshotNFTs eligible_standalone example_envs example_chains 3 2 \<noteq> None \<and>
   (let res = projr (the (snapshotNFTs example_env 3 2 100));
        pres = projr (the (panda_snapshotNFTs eligible_standalone example_envs example_chains 3 2))
    in map_option owner (foundTokens res 1) = Some ''0xA1'' \<and>
       map_option owner (foundTokens res 2) = Some ''0xB2'' \<and>
       foundTokens res 3 = None \<and> missingTokens res = [3] \<and> found res = 2 \<and> missing res = 1 \<and>
       card {tokenId \<in> {1 .. 3}. foundTokens res tokenId = None} = 1 \<and>
       map_option owner_p (snapshot_p pres 1) = Some ''0xA1'' \<and>
       map_option owner_p (snapshot_p pres 2) = Some ''0xB2'' \<and>
       snapshot_p pres 3 = None \<and> unresolved_p pres = [3] \<and> found_p pres = 2 \<and>
       missing_p pres = 1 \<and>
       card {tokenId \<in> {1 .. 3}. snapshot_p pres tokenId = None} = 1)"
  using every_token_found_or_missing [of example_env 3 2 100
      "projr (the (snapshotNFTs example_env 3 2 100))" eligible_standalone example_envs
      example_chains 3 2
      "projr (the (panda_snapshotNFTs eligible_standalone example_envs example_chains 3 2))"]
  by (simp add: example_run example_panda_run)

text \<open>
  Claim C2. In a run of either snapshotter the initial sweep works on the range
  \<open>1 .. TOTAL_SUPPLY\<close> cut into consecutive groups of \<open>BATCH_SIZE\<close> tokens, and recheck pass
  \<open>pass\<close> (1, 2 or 3) is the loop body run over a cutting of the tokens unresolved at the
  start of that pass into consecutive groups of \<open>max 5 (BATCH_SIZE div pass)\<close> tokens:
  the groups concatenate to the unresolved tokens in order, every group but the last has
  exactly that many members and no group is empty or larger. The state after the pass is
  the state before it, taken through the groups one after the other.
\<close>

theorem recheck_batch_size_law:
  "(initial_batches T B 1 = Some batches \<and> initial_sweep env blk init_state batches = Inr s0 \<and>
    pass \<in> {1, 2, 3} \<longrightarrow>
      partitions_by (nat B) [1 .. T] batches \<and>
      snapshotNFTs env T B blk = Some (Inr (generate_output T (recheck_upto env blk B 3 s0))) \<and>
      (\<exists>groups.
         partitions_by (nat (max 5 (B div int pass)))
           (tokensToRecheck (recheck_upto env blk B (pass - 1) s0)) groups \<and>
         recheck_upto env blk B pass s0 =
           foldl (recheck_group env blk pass) (recheck_upto env blk B (pass - 1) s0) groups)) \<and>
   (initial_batches T' B' 1 = Some batches' \<and>
    panda_initial_sweep elig envs chs init_state_p batches' = Inr s0' \<and> pass' \<in> {1, 2, 3} \<longrightarrow>
      partitions_by (nat B') [1 .. T'] batches' \<and>
      panda_snapshotNFTs elig envs chs T' B' =
        Some (Inr (panda_generate_output T' (panda_recheck_upto elig envs chs B' 3 s0'))) \<and>
      (\<exists>groups.
         partitions_by (nat (max 5 (B' div int pass')))
           (tokensToRecheck_p (panda_recheck_upto elig envs chs B' (pass' - 1) s0')) groups \<and>
         panda_recheck_upto elig envs chs B' pass' s0' =
           foldl (panda_recheck_group elig envs chs pass')
             (panda_recheck_upto elig envs chs B' (pass' - 1) s0') groups))"
proof (intro conjI impI; elim conjE)
  assume bs: "initial_batches T B 1 = Some batches"
    and sw: "initial_sweep env blk init_state batches = Inr s0" and p: "pass \<in> {1, 2, 3}"
  show "partitions_by (nat B) [1 .. T] batches"
    using bs by (rule initial_batches_partition)
  show "snapshotNFTs env T B blk = Some (Inr (generate_output T (recheck_upto env blk B 3 s0)))"
    using bs sw by (simp add: snapshotNFTs_def)
  have "0 < pass" using p by auto
  then show "\<exists>groups.
         partitions_by (nat (max 5 (B div int pass)))
           (tokensToRecheck (recheck_upto env blk B (pass - 1) s0)) groups \<and>
         recheck_upto env blk B pass s0 =
           foldl (recheck_group env blk pass) (recheck_upto env blk B (pass - 1) s0) groups"
    by (rule recheck_upto_groups)
next
  assume bs: "initial_batches T' B' 1 = Some batches'"
    and sw: "panda_initial_sweep elig envs chs init_state_p batches' = Inr s0'"
    and p: "pass' \<in> {1, 2, 3}"
  show "partitions_by (nat B') [1 .. T'] batches'"
    using bs by (rule initial_batches_partition)
  show "panda_snapshotNFTs elig envs chs T' B' =
        Some (Inr (panda_generate_output T' (panda_recheck_upto elig envs chs B' 3 s0')))"
    using bs sw by (simp add: panda_snapshotNFTs_def)
  have "0 < pass'" using p by auto
  then show "\<exists>groups.
         partitions_by (nat (max 5 (B' div int pass')))
           (tokensToRecheck_p (panda_recheck_upto elig envs chs B' (pass' - 1) s0')) groups \<and>
         panda_recheck_upto elig envs chs B' pass' s0' =
           foldl (panda_recheck_group elig envs chs pass')
             (panda_recheck_upto elig envs chs B' (pass' - 1) s0') groups"
    by (rule panda_recheck_upto_groups)
qed

theorem recheck_batch_size_law_witness:
  "initial_batches 7 12 1 = Some [[1, 2, 3, 4, 5, 6, 7]] \<and>
   initial_sweep silent_env 100 init_state [[1, 2, 3, 4, 5, 6, 7]] = Inr silent_swept \<and>
   partitions_by 12 [1 .. 7] [[1, 2, 3, 4, 5, 6, 7]] \<and>
   (\<exists>groups.
      partitions_by 6 [1, 2, 3, 4, 5, 6, 7] groups \<and>
      recheck_upto silent_env 100 12 2 silent_swept =
        foldl (recheck_group silent_env 100 2) (recheck_upto silent_env 100 12 1 silent_swept) groups) \<and>
   (\<exists>groups.
      partitions_by 5 [1, 2, 3, 4, 5, 6, 7] groups \<and>
      recheck_upto silent_env 100 12 3 silent_swept =
        foldl (recheck_group silent_env 100 3) (recheck_upto silent_env 100 12 2 silent_swept) groups) \<and>
   partitions_by 6 [1, 2, 3, 4, 5, 6, 7] [[1, 2, 3, 4, 5, 6], [7]] \<and>
   partitions_by 5 [1, 2, 3, 4, 5, 6, 7] [[1, 2, 3, 4, 5], [6, 7]] \<and>
   calls silent_swept = 1 \<and>
   calls (recheck_upto silent_env 100 12 1 silent_swept) = 2 \<and>
   calls (recheck_upto silent_env 100 12 2 silent_swept) = 4 \<and>
   calls (recheck_upto silent_env 100 12 3 silent_swept) = 6 \<and>
   panda_initial_sweep eligible_standalone (\<lambda>chainName. silent_env) example_chains init_state_p
     [[1, 2, 3, 4, 5, 6, 7]] = Inr silent_swept_p \<and>
   (\<exists>groups.
      partitions_by 5 [1, 2, 3, 4, 5, 6, 7] groups \<and>
      panda_recheck_upto eligible_standalone (\<lambda>chainName. silent_env) example_chains 12 3 silent_swept_p =
        foldl (panda_recheck_group eligible_standalone (\<lambda>chainName. silent_env) example_chains 3)
          (panda_recheck_upto eligible_standalone (\<lambda>chainName. silent_env) example_chains 12 2
             silent_swept_p) groups) \<and>
   calls_p silent_swept_p = 2 \<and>
   calls_p (panda_recheck_upto eligible_standalone (\<lambda>chainName. silent_env) example_chains 12 1
     silent_swept_p) = 4 \<and>
   calls_p (panda_recheck_upto eligible_standalone (\<lambda>chainName. silent_env) example_chains 12 2
     silent_swept_p) = 8 \<and>
   calls_p (panda_recheck_upto eligible_standalone (\<lambda>chainName. silent_env) example_chains 12 3
     silent_swept_p) = 12"
proof -
  have n: "nat (max 5 (12 div int 2)) = 6" "nat (max 5 (12 div int 3)) = 5" "(2::nat) - 1 = 1"
    "(3::nat) - 1 = 2" "nat 12 = 12"
    by simp_all
  show ?thesis
    using recheck_batch_size_law [of 7 12 "[[1, 2, 3, 4, 5, 6, 7]]" silent_env 100 silent_swept 2
        7 12 "[[1, 2, 3, 4, 5, 6, 7]]" eligible_standalone "\<lambda>chainName. silent_env" example_chains
        silent_swept_p 3]
      recheck_batch_size_law [of 7 12 "[[1, 2, 3, 4, 5, 6, 7]]" silent_env 100 silent_swept 3
        7 12 "[[1, 2, 3, 4, 5, 6, 7]]" eligible_standalone "\<lambda>chainName. silent_env" example_chains
        silent_swept_p 3]
    unfolding n
    by (simp add: silent_sweep silent_calls silent_panda_calls silent_groups
          del: initial_sweep.simps panda_initial_sweep.simps)
qed

text \<open>
  Claim C3. In a run of either snapshotter whose initial sweep has completed, take the
  states after \<open>p\<close> and after \<open>q\<close> recheck passes, \<open>p \<le> q \<le> 3\<close> (no pass at all is the state
  the initial sweep leaves). The later set of unresolved tokens is a subset of the
  earlier one and not larger, so nothing is ever added after the initial sweep and a
  removed token never comes back; and a token has left the set between the two states
  exactly when it has gained its entry in the final map between them.
\<close>

theorem unresolved_only_shrinks:
  "(initial_batches T B 1 = Some bs \<and> initial_sweep env blk init_state bs = Inr s0 \<and>
    p \<le> q \<and> q \<le> 3 \<longrightarrow>
      set (tokensToRecheck (recheck_upto env blk B q s0))
        \<subseteq> set (tokensToRecheck (recheck_upto env blk B p s0)) \<and>
      length (tokensToRecheck (recheck_upto env blk B q s0))
        \<le> length (tokensToRecheck (recheck_upto env blk B p s0)) \<and>
      (\<forall>tokenId.
         tokenId \<in> set (tokensToRecheck (recheck_upto env blk B p s0)) \<and>
         tokenId \<notin> set (tokensToRecheck (recheck_upto env blk B q s0)) \<longleftrightarrow>
         tokenId \<in> dom (finalSnapshot (recheck_upto env blk B q s0)) \<and>
         tokenId \<notin> dom (finalSnapshot (recheck_upto env blk B p s0)))) \<and>
   (initial_batches T' B' 1 = Some bs' \<and>
    panda_initial_sweep elig envs chs init_state_p bs' = Inr s0' \<and> p' \<le> q' \<and> q' \<le> 3 \<longrightarrow>
      set (tokensToRecheck_p (panda_recheck_upto elig envs chs B' q' s0'))
        \<subseteq> set (tokensToRecheck_p (panda_recheck_upto elig envs chs B' p' s0')) \<and>
      length (tokensToRecheck_p (panda_recheck_upto elig envs chs B' q' s0'))
        \<le> length (tokensToRecheck_p (panda_recheck_upto elig envs chs B' p' s0')) \<and>
      (\<forall>tokenId.
         tokenId \<in> set (tokensToRecheck_p (panda_recheck_upto elig envs chs B' p' s0')) \<and>
         tokenId \<notin> set (tokensToRecheck_p (panda_recheck_upto elig envs chs B' q' s0')) \<longleftrightarrow>
         tokenId \<in> dom (finalSnapshot_p (panda_recheck_upto elig envs chs B' q' s0')) \<and>
         tokenId \<notin> dom (finalSnapshot_p (panda_recheck_upto elig envs chs B' p' s0'))))"
proof (intro conjI impI allI; elim conjE)
  assume "initial_batches T B 1 = Some bs" and "initial_sweep env blk init_state bs = Inr s0"
    and "p \<le> q"
  note run = this
  show "set (tokensToRecheck (recheck_upto env blk B q s0))
        \<subseteq> set (tokensToRecheck (recheck_upto env blk B p s0))"
    using run by (rule infinity_shrinking(1))
  show "length (tokensToRecheck (recheck_upto env blk B q s0))
        \<le> length (tokensToRecheck (recheck_upto env blk B p s0))"
    using run by (rule infinity_shrinking(2))
  show "tokenId \<in> set (tokensToRecheck (recheck_upto env blk B p s0)) \<and>
         tokenId \<notin> set (tokensToRecheck (recheck_upto env blk B q s0)) \<longleftrightarrow>
         tokenId \<in> dom (finalSnapshot (recheck_upto env blk B q s0)) \<and>
         tokenId \<notin> dom (finalSnapshot (recheck_upto env blk B p s0))" for tokenId
    using run by (rule infinity_shrinking(3))
next
  assume "initial_batches T' B' 1 = Some bs'"
    and "panda_initial_sweep elig envs chs init_state_p bs' = Inr s0'" and "p' \<le> q'"
  note run = this
  show "set (tokensToRecheck_p (panda_recheck_upto elig envs chs B' q' s0'))
        \<subseteq> set (tokensToRecheck_p (panda_recheck_upto elig envs chs B' p' s0'))"
    using run by (rule panda_shrinking(1))
  show "length (tokensToRecheck_p (panda_recheck_upto elig envs chs B' q' s0'))
        \<le> length (tokensToRecheck_p (panda_recheck_upto elig envs chs B' p' s0'))"
    using run by (rule panda_shrinking(2))
  show "tokenId \<in> set (tokensToRecheck_p (panda_recheck_upto elig envs chs B' p' s0')) \<and>
         tokenId \<notin> set (tokensToRecheck_p (panda_recheck_upto elig envs chs B' q' s0')) \<longleftrightarrow>
         tokenId \<in> dom (finalSnapshot_p (panda_recheck_upto elig envs chs B' q' s0')) \<and>
         tokenId \<notin> dom (finalSnapshot_p (panda_recheck_upto elig envs chs B' p' s0'))" for tokenId
    using run by (rule panda_shrinking(3))
qed

theorem unresolved_only_shrinks_witness:
  "initial_batches 3 2 1 = Some [[1, 2], [3]] \<and>
   initial_sweep example_env 100 init_state [[1, 2], [3]] = Inr example_swept \<and>
   tokensToRecheck (recheck_upto example_env 100 2 0 example_swept) = [2, 3] \<and>
   tokensToRecheck (recheck_upto example_env 100 2 3 example_swept) = [3] \<and>
   set (tokensToRecheck (recheck_upto example_env 100 2 3 example_swept))
     \<subseteq> set (tokensToRecheck (recheck_upto example_env 100 2 0 example_swept)) \<and>
   2 \<in> dom (finalSnapshot (recheck_upto example_env 100 2 3 example_swept)) \<and>
   2 \<notin> dom (finalSnapshot (recheck_upto example_env 100 2 0 example_swept)) \<and>
   panda_initial_sweep eligible_standalone example_envs example_chains init_state_p [[1, 2], [3]] =
     Inr example_swept_p \<and>
   tokensToRecheck_p (panda_recheck_upto eligible_standalone example_envs example_chains 2 0 example_swept_p) = [2, 3] \<and>
   tokensToRecheck_p (panda_recheck_upto eligible_standalone example_envs example_chains 2 3 example_swept_p) = [3] \<and>
   set (tokensToRecheck_p (panda_recheck_upto eligible_standalone example_envs example_chains 2 3 example_swept_p))
     \<subseteq> set (tokensToRecheck_p (panda_recheck_upto eligible_standalone example_envs example_chains 2 0 example_swept_p)) \<and>
   2 \<in> dom (finalSnapshot_p (panda_recheck_upto eligible_standalone example_envs example_chains 2 3 example_swept_p)) \<and>
   2 \<notin> dom (finalSnapshot_p (panda_recheck_upto eligible_standalone example_envs example_chains 2 0 example_swept_p))"
proof -
  have a: "tokensToRecheck example_swept = [2, 3]" "finalSnapshot example_swept 2 = None"
    by (simp_all add: example_swept_def)
  have b: "tokensToRecheck_p example_swept_p = [2, 3]" "finalSnapshot_p example_swept_p 2 = None"
    by (simp_all add: example_swept_p_def)
  show ?thesis
    using unresolved_only_shrinks [of 3 2 "[[1, 2], [3]]" example_env 100 example_swept 0 3
        3 2 "[[1, 2], [3]]" eligible_standalone example_envs example_chains example_swept_p 0 3]
    by (simp add: example_sweep example_rechecks example_panda_sweep example_panda_rechecks a b domIff
          del: initial_sweep.simps panda_initial_sweep.simps)
qed

text \<open>
  Claim C4. In a run of either snapshotter whose initial sweep has completed, an entry
  of the final map, once written, is never changed: the map after any number of groups
  of the initial sweep is contained in the map after any larger number of groups, and
  the map after \<open>p\<close> recheck passes and \<open>j\<close> groups of the next pass is contained in the map
  after \<open>q\<close> passes and \<open>k\<close> groups whenever the second point comes later in the run. Being
  contained means that every id with an entry has the very same entry (owner, chain,
  block) in the later map. The points \<open>(0, 0)\<close> and \<open>(3, 0)\<close> are the end of the initial
  sweep and the end of the run.
\<close>

theorem first_writer_wins:
  "(initial_batches T B 1 = Some bs \<and> initial_sweep env blk init_state bs = Inr s0 \<longrightarrow>
      (\<forall>j k sj sk. j \<le> k \<and> initial_sweep env blk init_state (take j bs) = Inr sj \<and>
          initial_sweep env blk init_state (take k bs) = Inr sk \<longrightarrow>
          finalSnapshot sj \<subseteq>\<^sub>m finalSnapshot sk) \<and>
      (\<forall>p q j k. p < q \<or> (p = q \<and> j \<le> k) \<longrightarrow>
          finalSnapshot (recheck_state env blk B s0 p j)
            \<subseteq>\<^sub>m finalSnapshot (recheck_state env blk B s0 q k)) \<and>
      recheck_state env blk B s0 0 0 = s0 \<and>
      recheck_state env blk B s0 3 0 = recheck_upto env blk B 3 s0) \<and>
   (initial_batches T' B' 1 = Some bs' \<and>
    panda_initial_sweep elig envs chs init_state_p bs' = Inr s0' \<longrightarrow>
      (\<forall>j k sj sk. j \<le> k \<and> panda_initial_sweep elig envs chs init_state_p (take j bs') = Inr sj \<and>
          panda_initial_sweep elig envs chs init_state_p (take k bs') = Inr sk \<longrightarrow>
          finalSnapshot_p sj \<subseteq>\<^sub>m finalSnapshot_p sk) \<and>
      (\<forall>p q j k. p < q \<or> (p = q \<and> j \<le> k) \<longrightarrow>
          finalSnapshot_p (panda_recheck_state elig envs chs B' s0' p j)
            \<subseteq>\<^sub>m finalSnapshot_p (panda_recheck_state elig envs chs B' s0' q k)) \<and>
      panda_recheck_state elig envs chs B' s0' 0 0 = s0' \<and>
      panda_recheck_state elig envs chs B' s0' 3 0 = panda_recheck_upto elig envs chs B' 3 s0')"
proof (intro conjI impI allI; elim conjE)
  assume run: "initial_batches T B 1 = Some bs" "initial_sweep env blk init_state bs = Inr s0"
  show "finalSnapshot sj \<subseteq>\<^sub>m finalSnapshot sk"
    if "j \<le> k" "initial_sweep env blk init_state (take j bs) = Inr sj"
      "initial_sweep env blk init_state (take k bs) = Inr sk" for j k sj sk
    using run that by (rule infinity_frame(1))
  show "finalSnapshot (recheck_state env blk B s0 p j)
            \<subseteq>\<^sub>m finalSnapshot (recheck_state env blk B s0 q k)"
    if "p < q \<or> (p = q \<and> j \<le> k)" for p q j k
    using run that by (rule infinity_frame(2))
  show "recheck_state env blk B s0 0 0 = s0"
    by (simp add: recheck_state_0 recheck_upto_0)
  show "recheck_state env blk B s0 3 0 = recheck_upto env blk B 3 s0"
    by (simp add: recheck_state_0)
next
  assume run: "initial_batches T' B' 1 = Some bs'"
    "panda_initial_sweep elig envs chs init_state_p bs' = Inr s0'"
  show "finalSnapshot_p sj \<subseteq>\<^sub>m finalSnapshot_p sk"
    if "j \<le> k" "panda_initial_sweep elig envs chs init_state_p (take j bs') = Inr sj"
      "panda_initial_sweep elig envs chs init_state_p (take k bs') = Inr sk" for j k sj sk
    using run that by (rule panda_frame(1))
  show "finalSnapshot_p (panda_recheck_state elig envs chs B' s0' p j)
            \<subseteq>\<^sub>m finalSnapshot_p (panda_recheck_state elig envs chs B' s0' q k)"
    if "p < q \<or> (p = q \<and> j \<le> k)" for p q j k
    using run that by (rule panda_frame(2))
  show "panda_recheck_state elig envs chs B' s0' 0 0 = s0'"
    by (simp add: panda_recheck_state_0 panda_recheck_upto_0)
  show "panda_recheck_state elig envs chs B' s0' 3 0 = panda_recheck_upto elig envs chs B' 3 s0'"
    by (simp add: panda_recheck_state_0)
qed

theorem first_writer_wins_witness:
  "initial_batches 3 2 1 = Some [[1, 2], [3]] \<and>
   initial_sweep example_env 100 init_state [[1, 2], [3]] = Inr example_swept \<and>
   finalSnapshot example_swept \<subseteq>\<^sub>m finalSnapshot (recheck_upto example_env 100 2 3 example_swept) \<and>
   finalSnapshot example_swept 1 = Some \<lparr>owner = ''0xA1'', block = 100\<rparr> \<and>
   finalSnapshot (recheck_upto example_env 100 2 3 example_swept) 1 =
     Some \<lparr>owner = ''0xA1'', block = 100\<rparr> \<and>
   panda_initial_sweep eligible_standalone example_envs example_chains init_state_p [[1, 2], [3]] =
     Inr example_swept_p \<and>
   finalSnapshot_p example_swept_p
     \<subseteq>\<^sub>m finalSnapshot_p (panda_recheck_upto eligible_standalone example_envs example_chains 2 3 example_swept_p) \<and>
   finalSnapshot_p example_swept_p 1 =
     Some \<lparr>owner_p = ''0xA1'', chain_p = ''ethereum'', block_p = Some 100\<rparr> \<and>
   finalSnapshot_p (panda_recheck_upto eligible_standalone example_envs example_chains 2 3 example_swept_p) 1 =
     Some \<lparr>owner_p = ''0xA1'', chain_p = ''ethereum'', block_p = Some 100\<rparr>"
proof -
  note t = first_writer_wins [of 3 2 "[[1, 2], [3]]" example_env 100 example_swept
      3 2 "[[1, 2], [3]]" eligible_standalone example_envs example_chains example_swept_p]
  note inf = mp [OF conjunct1 [OF t] conjI [OF example_sweep(1) example_sweep(2)]]
  note pan = mp [OF conjunct2 [OF t] conjI [OF example_sweep(1) example_panda_sweep]]
  have i: "finalSnapshot (recheck_state example_env 100 2 example_swept 0 0)
      \<subseteq>\<^sub>m finalSnapshot (recheck_state example_env 100 2 example_swept 3 0)"
    by (rule conjunct1 [OF conjunct2 [OF inf], rule_format]) simp
  have i0: "recheck_state example_env 100 2 example_swept 0 0 = example_swept"
    by (rule conjunct1 [OF conjunct2 [OF conjunct2 [OF inf]]])
  have i3: "recheck_state example_env 100 2 example_swept 3 0 =
      recheck_upto example_env 100 2 3 example_swept"
    by (rule conjunct2 [OF conjunct2 [OF conjunct2 [OF inf]]])
  have p: "finalSnapshot_p (panda_recheck_state eligible_standalone example_envs example_chains 2 example_swept_p 0 0)
      \<subseteq>\<^sub>m finalSnapshot_p (panda_recheck_state eligible_standalone example_envs example_chains 2 example_swept_p 3 0)"
    by (rule conjunct1 [OF conjunct2 [OF pan], rule_format]) simp
  have p0: "panda_recheck_state eligible_standalone example_envs example_chains 2 example_swept_p 0 0 =
      example_swept_p"
    by (rule conjunct1 [OF conjunct2 [OF conjunct2 [OF pan]]])
  have p3: "panda_recheck_state eligible_standalone example_envs example_chains 2 example_swept_p 3 0 =
      panda_recheck_upto eligible_standalone example_envs example_chains 2 3 example_swept_p"
    by (rule conjunct2 [OF conjunct2 [OF conjunct2 [OF pan]]])
  have a: "finalSnapshot example_swept 1 = Some \<lparr>owner = ''0xA1'', block = 100\<rparr>"
    by (simp add: example_swept_def)
  have b: "finalSnapshot_p example_swept_p 1 =
      Some \<lparr>owner_p = ''0xA1'', chain_p = ''ethereum'', block_p = Some 100\<rparr>"
    by (simp add: example_swept_p_def)
  have i': "finalSnapshot example_swept \<subseteq>\<^sub>m finalSnapshot (recheck_upto example_env 100 2 3 example_swept)"
    using i unfolding i0 i3 .
  have p': "finalSnapshot_p example_swept_p
     \<subseteq>\<^sub>m finalSnapshot_p (panda_recheck_upto eligible_standalone example_envs example_chains 2 3 example_swept_p)"
    using p unfolding p0 p3 .
  have a3: "finalSnapshot (recheck_upto example_env 100 2 3 example_swept) 1 =
     Some \<lparr>owner = ''0xA1'', block = 100\<rparr>"
    using i' a by (rule map_le_SomeD)
  have b3: "finalSnapshot_p (panda_recheck_upto eligible_standalone example_envs example_chains 2 3 example_swept_p) 1 =
     Some \<lparr>owner_p = ''0xA1'', chain_p = ''ethereum'', block_p = Some 100\<rparr>"
    using p' b by (rule map_le_SomeD)
  show ?thesis
    using example_sweep example_panda_sweep i' p' a b a3 b3 by (intro conjI)
qed



text \<open>
  Claim C6, as amended. A call of \<open>getNFTOwner\<close> that returns has taken one slot per
  attempt, at most five, and has made every HTTP round trip while holding a slot; under
  each slot it has made one or two round trips, and when it returns an owner the last
  slot has covered both the lookup of the largest token accounts and the lookup of the
  account owner.
\<close>

theorem one_slot_per_attempt:
  "getNFTOwner env mintAddress st = Some (r, st') \<longrightarrow>
     (\<exists>evs. trace st' = trace st @ evs \<and> balanced False evs \<and>
        count_list evs Acquire = length (slot_posts evs) \<and>
        length (slot_posts evs) \<le> maxRetries \<and>
        (\<forall>k \<in> set (slot_posts evs). 1 \<le> k \<and> k \<le> 2) \<and>
        (\<forall>ow. r = Some ow \<longrightarrow> slot_posts evs \<noteq> [] \<and> last (slot_posts evs) = 2))"
proof
  assume "getNFTOwner env mintAddress st = Some (r, st')"
  from getNFTOwner_effect [OF this] obtain evs where
    "trace st' = trace st @ evs" "balanced False evs"
    "\<forall>k \<in> set (slot_posts evs). 1 \<le> k \<and> k \<le> 2" "length (slot_posts evs) \<le> maxRetries"
    "\<forall>ow. r = Some ow \<longrightarrow> slot_posts evs \<noteq> [] \<and> last (slot_posts evs) = 2"
    by blast
  then show "\<exists>evs. trace st' = trace st @ evs \<and> balanced False evs \<and>
        count_list evs Acquire = length (slot_posts evs) \<and>
        length (slot_posts evs) \<le> maxRetries \<and>
        (\<forall>k \<in> set (slot_posts evs). 1 \<le> k \<and> k \<le> 2) \<and>
        (\<forall>ow. r = Some ow \<longrightarrow> slot_posts evs \<noteq> [] \<and> last (slot_posts evs) = 2)"
    by (intro exI [of _ evs]) (simp add: length_slot_posts)
qed

theorem one_slot_per_attempt_witness:
  "getNFTOwner helius_flaky (Some mintA) idle_fetcher =
     Some (Some ''wallet1'',
       \<lparr>maxConcurrent = 30, activeRequests = 0, posts = 3,
        trace = [Acquire, PostLargestAccounts mintA, Release, Sleep 4000,
                 Acquire, Sleep 2000, PostLargestAccounts mintA, Sleep 200,
                 PostAccountInfo ''acct1'', Release]\<rparr>) \<and>
   slot_posts [Acquire, PostLargestAccounts mintA, Release, Sleep 4000,
               Acquire, Sleep 2000, PostLargestAccounts mintA, Sleep 200,
               PostAccountInfo ''acct1'', Release] = [1, 2] \<and>
   count_list [Acquire, PostLargestAccounts mintA, Release, Sleep 4000,
               Acquire, Sleep 2000, PostLargestAccounts mintA, Sleep 200,
               PostAccountInfo ''acct1'', Release] Acquire = 2"
  using one_slot_per_attempt [of helius_flaky "Some mintA" idle_fetcher "Some ''wallet1''"
      "\<lparr>maxConcurrent = 30, activeRequests = 0, posts = 3,
        trace = [Acquire, PostLargestAccounts mintA, Release, Sleep 4000,
                 Acquire, Sleep 2000, PostLargestAccounts mintA, Sleep 200,
                 PostAccountInfo ''acct1'', Release]\<rparr>"]
  by (simp add: example_fetch_flaky)

text \<open>
  Claim C6 as stated (a slot taken for each round trip, two per successful attempt)
  fails: a call that succeeds at its first attempt takes one slot and makes both round
  trips under it.
\<close>

theorem two_round_trips_under_one_slot:
  "getNFTOwner helius_ok (Some mintA) idle_fetcher =
     Some (Some ''wallet1'',
       \<lparr>maxConcurrent = 30, activeRequests = 0, posts = 2,
        trace = [Acquire, PostLargestAccounts mintA, Sleep 200, PostAccountInfo ''acct1'',
                 Release]\<rparr>) \<and>
   count_list (trace (snd (the (getNFTOwner helius_ok (Some mintA) idle_fetcher)))) Acquire = 1 \<and>
   length (filter is_post (trace (snd (the (getNFTOwner helius_ok (Some mintA) idle_fetcher))))) = 2 \<and>
   slot_posts (trace (snd (the (getNFTOwner helius_ok (Some mintA) idle_fetcher)))) = [2]"
  by (simp add: example_fetch_ok)

text \<open>
  Claim C7, as amended. In a complete run of either EVM snapshotter the rows written are
  exactly the entries of the final map: every row carries the owner recorded for its
  token, a non-empty string other than the zero address, and no token left unresolved
  has a row; the unresolved tokens only make up the count of tokens not found (for a
  supply that is not negative). The Solana path is different: \<open>processEarningsCSV\<close>
  writes one row for every valid row of its input, in order and with the same token;
  the column \<open>OwnerWallet\<close> of a written row holds what the call of \<open>getNFTOwner\<close> for
  that token returned, so it is empty when the owner was not found; and the written
  rows with an empty \<open>OwnerWallet\<close> are the ones counted as missing.
\<close>

theorem unresolved_tokens_have_no_row:
  "(snapshotNFTs env T B blk = Some (Inr res) \<longrightarrow>
      TokenId ` set (csvData res) = dom (foundTokens res) \<and>
      (\<forall>row \<in> set (csvData res).
          foundTokens res (TokenId row) = Some \<lparr>owner = Owner row, block = BlockNumber row\<rparr> \<and>
          Owner row \<noteq> [] \<and> Owner row \<noteq> ZeroAddress) \<and>
      (\<forall>tokenId \<in> set (missingTokens res). tokenId \<notin> TokenId ` set (csvData res)) \<and>
      (0 \<le> T \<longrightarrow> missing res = int (length (missingTokens res)))) \<and>
   (panda_snapshotNFTs elig envs chs T' B' = Some (Inr pres) \<longrightarrow>
      TokenId_p ` set (processedData pres) = dom (snapshot_p pres) \<and>
      (\<forall>row \<in> set (processedData pres).
          snapshot_p pres (TokenId_p row) =
            Some \<lparr>owner_p = Owner_p row, chain_p = Chain_p row, block_p = BlockNumber_p row\<rparr> \<and>
          Owner_p row \<noteq> [] \<and> Owner_p row \<noteq> ZeroAddress) \<and>
      (\<forall>tokenId \<in> set (unresolved_p pres). tokenId \<notin> TokenId_p ` set (processedData pres)) \<and>
      (0 \<le> T' \<longrightarrow> missing_p pres = int (length (unresolved_p pres)))) \<and>
   (processEarningsCSV henv Bs st data = Some (Inr out) \<longrightarrow>
      map SolanaTokenId (written out) = map SolanaTokenId (filter valid_row data) \<and>
      list_all2
        (\<lambda>row w. SolanaTokenId w = SolanaTokenId row \<and>
           (\<exists>st1 st2. maxConcurrent st1 = maxConcurrent st \<and>
              activeRequests st1 = activeRequests st \<and>
              getNFTOwner henv (SolanaTokenId row) st1 = Some (OwnerWallet w, st2)))
        (filter valid_row data) (written out) \<and>
      total_s out = length (written out) \<and>
      found_s out = length (filter has_owner (written out)) \<and>
      missing_s out = length (filter (\<lambda>row. \<not> has_owner row) (written out)))"
proof (intro conjI impI)
  assume run: "snapshotNFTs env T B blk = Some (Inr res)"
  show "TokenId ` set (csvData res) = dom (foundTokens res)"
    using run by (rule infinity_rows(1))
  show "\<forall>row \<in> set (csvData res).
          foundTokens res (TokenId row) = Some \<lparr>owner = Owner row, block = BlockNumber row\<rparr> \<and>
          Owner row \<noteq> [] \<and> Owner row \<noteq> ZeroAddress"
    using run by (rule infinity_rows(2))
  show "\<forall>tokenId \<in> set (missingTokens res). tokenId \<notin> TokenId ` set (csvData res)"
    using run by (rule infinity_rows(3))
  show "missing res = int (length (missingTokens res))" if "0 \<le> T"
    using infinity_rows(4) [OF run] that by simp
next
  assume run: "panda_snapshotNFTs elig envs chs T' B' = Some (Inr pres)"
  show "TokenId_p ` set (processedData pres) = dom (snapshot_p pres)"
    using run by (rule panda_rows(1))
  show "\<forall>row \<in> set (processedData pres).
          snapshot_p pres (TokenId_p row) =
            Some \<lparr>owner_p = Owner_p row, chain_p = Chain_p row, block_p = BlockNumber_p row\<rparr> \<and>
          Owner_p row \<noteq> [] \<and> Owner_p row \<noteq> ZeroAddress"
    using run by (rule panda_rows(2))
  show "\<forall>tokenId \<in> set (unresolved_p pres). tokenId \<notin> TokenId_p ` set (processedData pres)"
    using run by (rule panda_rows(3))
  show "missing_p pres = int (length (unresolved_p pres))" if "0 \<le> T'"
    using panda_rows(4) [OF run] that by simp
next
  assume run: "processEarningsCSV henv Bs st data = Some (Inr out)"
  note r = processEarningsCSV_rows [OF run]
  show "map SolanaTokenId (written out) = map SolanaTokenId (filter valid_row data)"
    using r by (rule conjunct1)
  have "list_all2 (answered henv st) (filter valid_row data) (written out)"
    using r by simp
  then show "list_all2
        (\<lambda>row w. SolanaTokenId w = SolanaTokenId row \<and>
           (\<exists>st1 st2. maxConcurrent st1 = maxConcurrent st \<and>
              activeRequests st1 = activeRequests st \<and>
              getNFTOwner henv (SolanaTokenId row) st1 = Some (OwnerWallet w, st2)))
        (filter valid_row data) (written out)"
    by (simp add: answered_def [abs_def])
  show "total_s out = length (written out)"
    using r by simp
  show "found_s out = length (filter has_owner (written out))"
    using r by simp
  show "missing_s out = length (filter (\<lambda>row. \<not> has_owner row) (written out))"
    using r by simp
qed

theorem unresolved_tokens_have_no_row_witness:
  "snapshotNFTs example_env 3 2 100 \<noteq> None \<and>
   map TokenId (csvData (projr (the (snapshotNFTs example_env 3 2 100)))) = [1, 2] \<and>
   missingTokens (projr (the (snapshotNFTs example_env 3 2 100))) = [3] \<and>
   3 \<notin> TokenId ` set (csvData (projr (the (snapshotNFTs example_env 3 2 100)))) \<and>
   missing (projr (the (snapshotNFTs example_env 3 2 100))) = 1 \<and>
   map TokenId_p (processedData (projr (the (panda_snapshotNFTs eligible_standalone example_envs
      example_chains 3 2)))) = [1, 2] \<and>
   unresolved_p (projr (the (panda_snapshotNFTs eligible_standalone example_envs example_chains 3 2))) = [3] \<and>
   3 \<notin> TokenId_p ` set (processedData (projr (the (panda_snapshotNFTs eligible_standalone
      example_envs example_chains 3 2)))) \<and>
   written (projr (the (processEarningsCSV helius_partial 50 idle_fetcher
      [\<lparr>SolanaTokenId = Some mintA, OwnerWallet = None\<rparr>,
       \<lparr>SolanaTokenId = Some mintB, OwnerWallet = None\<rparr>,
       \<lparr>SolanaTokenId = Some [0x00A0], OwnerWallet = None\<rparr>]))) =
     [\<lparr>SolanaTokenId = Some mintA, OwnerWallet = Some ''wallet1''\<rparr>,
      \<lparr>SolanaTokenId = Some mintB, OwnerWallet = None\<rparr>] \<and>
   missing_s (projr (the (processEarningsCSV helius_partial 50 idle_fetcher
      [\<lparr>SolanaTokenId = Some mintA, OwnerWallet = None\<rparr>,
       \<lparr>SolanaTokenId = Some mintB, OwnerWallet = None\<rparr>,
       \<lparr>SolanaTokenId = Some [0x00A0], OwnerWallet = None\<rparr>]))) = 1"
  using unresolved_tokens_have_no_row [of example_env 3 2 100
      "projr (the (snapshotNFTs example_env 3 2 100))"
      eligible_standalone example_envs example_chains 3 2
      "projr (the (panda_snapshotNFTs eligible_standalone example_envs example_chains 3 2))"
      helius_partial 50 idle_fetcher
      "[\<lparr>SolanaTokenId = Some mintA, OwnerWallet = None\<rparr>,
        \<lparr>SolanaTokenId = Some mintB, OwnerWallet = None\<rparr>,
        \<lparr>SolanaTokenId = Some [0x00A0], OwnerWallet = None\<rparr>]"
      "projr (the (processEarningsCSV helius_partial 50 idle_fetcher
        [\<lparr>SolanaTokenId = Some mintA, OwnerWallet = None\<rparr>,
         \<lparr>SolanaTokenId = Some mintB, OwnerWallet = None\<rparr>,
         \<lparr>SolanaTokenId = Some [0x00A0], OwnerWallet = None\<rparr>]))"]
  by (simp add: example_run example_panda_run example_earnings_partial del: filter.simps)

text \<open>
  Claim C7 as stated fails on the Solana path: a row whose owner is never found is
  written, with an empty \<open>OwnerWallet\<close>.
\<close>

theorem unresolved_row_is_written:
  "processEarningsCSV helius_down 50 idle_fetcher
     [\<lparr>SolanaTokenId = Some mintA, OwnerWallet = None\<rparr>,
      \<lparr>SolanaTokenId = Some [0x00A0], OwnerWallet = None\<rparr>] =
   Some (Inr \<lparr>written = [\<lparr>SolanaTokenId = Some mintA, OwnerWallet = None\<rparr>],
              total_s = 1, found_s = 0, missing_s = 1\<rparr>) \<and>
   map_option fst (getNFTOwner helius_down (Some mintA) idle_fetcher) = Some None"
  by (simp add: example_earnings example_fetch_down)






text \<open>
  Claim C10. The counts of the wallet summary add up to the number of entries of the
  map it is made from; the summary lists every wallet once, so the number of wallets is
  at most the number of entries, and the reported number of unique wallets is at most
  the reported number of tokens found.
\<close>

theorem wallet_counts_add_up:
  "sum_list (map snd (generateWalletSummary tokens)) = card (dom tokens) \<and>
   distinct (map fst (generateWalletSummary tokens)) \<and>
   length (generateWalletSummary tokens) \<le> card (dom tokens) \<and>
   uniqueWallets (panda_generate_output T st) \<le> found_p (panda_generate_output T st)"
  using generateWalletSummary_total [of tokens] generateWalletSummary_total [of "finalSnapshot_p st"]
  by (simp add: panda_generate_output_def)

theorem wallet_counts_add_up_witness:
  "generateWalletSummary
     [1 \<mapsto> \<lparr>owner_p = ''0xA1'', chain_p = ''ethereum'', block_p = Some 100\<rparr>,
      2 \<mapsto> \<lparr>owner_p = ''0xB2'', chain_p = ''polygon'', block_p = Some 300\<rparr>,
      3 \<mapsto> \<lparr>owner_p = ''0xA1'', chain_p = ''polygon'', block_p = Some 300\<rparr>] =
     [(''0xA1'', 2), (''0xB2'', 1)] \<and>
   sum_list (map snd (generateWalletSummary
     [1 \<mapsto> \<lparr>owner_p = ''0xA1'', chain_p = ''ethereum'', block_p = Some 100\<rparr>,
      2 \<mapsto> \<lparr>owner_p = ''0xB2'', chain_p = ''polygon'', block_p = Some 300\<rparr>,
      3 \<mapsto> \<lparr>owner_p = ''0xA1'', chain_p = ''polygon'', block_p = Some 300\<rparr>])) = 3 \<and>
   card (dom [1 \<mapsto> \<lparr>owner_p = ''0xA1'', chain_p = ''ethereum'', block_p = Some 100\<rparr>,
      2 \<mapsto> \<lparr>owner_p = ''0xB2'', chain_p = ''polygon'', block_p = Some 300\<rparr>,
      (3::int) \<mapsto> \<lparr>owner_p = ''0xA1'', chain_p = ''polygon'', block_p = Some 300\<rparr>]) = 3"
proof -
  let ?m = "[1 \<mapsto> \<lparr>owner_p = ''0xA1'', chain_p = ''ethereum'', block_p = Some 100\<rparr>,
      2 \<mapsto> \<lparr>owner_p = ''0xB2'', chain_p = ''polygon'', block_p = Some 300\<rparr>,
      (3::int) \<mapsto> \<lparr>owner_p = ''0xA1'', chain_p = ''polygon'', block_p = Some 300\<rparr>]"
  have e: "generateWalletSummary ?m = [(''0xA1'', 2), (''0xB2'', 1)]"
    by (simp add: generateWalletSummary_def object_entries_def count_wallet_def)
  have c: "card (dom ?m) = 3" by simp
  show ?thesis
    using wallet_counts_add_up [of ?m 3 init_state_p] e c by simp
qed


end
